theory Spec2Isabelle
  imports Complex_Main
begin

section \<open>Python values, faults and array indexing\<close>

text \<open>
  The two planners (\<^verbatim>\<open>CSDA_planner.py\<close>, the deterministic search planner, and
  \<^verbatim>\<open>DSPA_planner.py\<close>, the MDP planner) share the map inflation, the motion model and the
  goal test; they differ in \<^verbatim>\<open>collision_checker\<close> and \<^verbatim>\<open>generate_plan\<close>.
  Python floats are idealised as real numbers, except in the binary64 model of
  \<^verbatim>\<open>motion_predict\<close> further down; every exception the modelled code can raise is a value of
  \<open>error\<close>, returned as \<open>Inl\<close>.
\<close>

datatype error = IndexError | KeyError | ZeroDivisionError | ValueError

definition err_bind :: "error + 'a \<Rightarrow> ('a \<Rightarrow> error + 'b) \<Rightarrow> error + 'b" where
  "err_bind m f = (case m of Inl e \<Rightarrow> Inl e | Inr a \<Rightarrow> f a)"

text \<open>\<^verbatim>\<open>int(x)\<close> on a float truncates toward zero.\<close>

definition py_int :: "real \<Rightarrow> int" where
  "py_int x = (if 0 \<le> x then \<lfloor>x\<rfloor> else \<lceil>x\<rceil>)"

text \<open>
  \<^verbatim>\<open>round(x)\<close>, to the nearest integer; an exact half goes to the even neighbour. The
  rounding of halves plays no role below: every rounded value used in a theorem is either
  an integer already or away from a half.
\<close>

definition py_round :: "real \<Rightarrow> int" where
  "py_round x =
     (let f = \<lfloor>x\<rfloor>; d = x - of_int f
      in if d < 1 / 2 then f else if 1 / 2 < d then f + 1 else if even f then f else f + 1)"

text \<open>
  Indexing one axis of a numpy array of extent \<open>n\<close>: an index in \<open>[-n, 0)\<close> counts from
  the end, an index outside \<open>[-n, n)\<close> raises \<^verbatim>\<open>IndexError\<close>.
\<close>

definition np_index :: "nat \<Rightarrow> int \<Rightarrow> error + nat" where
  "np_index n i =
     (if 0 \<le> i \<and> i < int n then Inr (nat i)
      else if - int n \<le> i \<and> i < 0 then Inr (nat (i + int n))
      else Inl IndexError)"

type_synonym grid = "int list list"

definition np_get2 :: "grid \<Rightarrow> int \<Rightarrow> int \<Rightarrow> error + int" where
  "np_get2 a i j =
     err_bind (np_index (length a) i) (\<lambda>r.
     err_bind (np_index (length (a ! r)) j) (\<lambda>c. Inr (a ! r ! c)))"

section \<open>Grid map and inflation (\<^verbatim>\<open>Planner.map_callback\<close>, both planners)\<close>

definition wf_grid :: "nat \<Rightarrow> nat \<Rightarrow> grid \<Rightarrow> bool" where
  "wf_grid H W m \<longleftrightarrow> length m = H \<and> (\<forall>row \<in> set m. length row = W)"

text \<open>\<^verbatim>\<open>np.array(self.map).reshape((world_height, world_width))\<close>, row-major.\<close>

fun rows_of :: "nat \<Rightarrow> nat \<Rightarrow> int list \<Rightarrow> grid" where
  "rows_of 0 W xs = []"
| "rows_of (Suc n) W xs = take W xs # rows_of n W (drop W xs)"

definition reshape :: "nat \<Rightarrow> nat \<Rightarrow> int list \<Rightarrow> error + grid" where
  "reshape H W xs = (if length xs = H * W then Inr (rows_of H W xs) else Inl ValueError)"

definition ROBOT_SIZE :: real where
  "ROBOT_SIZE = 2552 / 10000"

text \<open>\<^verbatim>\<open>pixel_buffer = int(ROBOT_SIZE / resolution * self.inflation_ratio)\<close>\<close>

definition pixel_buffer :: "real \<Rightarrow> int \<Rightarrow> error + int" where
  "pixel_buffer res ratio =
     (if res = 0 then Inl ZeroDivisionError
      else Inr (py_int (ROBOT_SIZE / res * of_int ratio)))"

text \<open>The test of line 106 (CSDA) / 104 (DSPA): the raw cell is occupied or on the border.\<close>

definition inflation_source :: "nat \<Rightarrow> nat \<Rightarrow> grid \<Rightarrow> nat \<Rightarrow> nat \<Rightarrow> bool" where
  "inflation_source H W m i ii \<longleftrightarrow>
     m ! i ! ii = 100 \<or> i = 0 \<or> int i = int H - 1 \<or> ii = 0 \<or> int ii = int W - 1"

text \<open>
  The two innermost loops: \<^verbatim>\<open>for height_inflate in range(top_index, bottom_index)\<close>,
  \<^verbatim>\<open>for width_inflate in range(left_index, right_index)\<close>, each writing 100 into
  \<^verbatim>\<open>aug_map\<close>. The indices are clamped to the array by the caller.
\<close>

definition mark_row :: "grid \<Rightarrow> nat \<Rightarrow> nat \<Rightarrow> nat \<Rightarrow> grid" where
  "mark_row aug height_inflate left_index right_index =
     fold (\<lambda>width_inflate a. a[height_inflate := (a ! height_inflate)[width_inflate := 100]])
       [left_index..<right_index] aug"

definition mark_window :: "grid \<Rightarrow> nat \<Rightarrow> nat \<Rightarrow> nat \<Rightarrow> nat \<Rightarrow> grid" where
  "mark_window aug top_index bottom_index left_index right_index =
     fold (\<lambda>height_inflate a. mark_row a height_inflate left_index right_index)
       [top_index..<bottom_index] aug"

text \<open>The body of the double loop over \<open>(i, ii)\<close>: it reads the raw map and writes the copy.\<close>

definition inflate_cell :: "nat \<Rightarrow> nat \<Rightarrow> int \<Rightarrow> grid \<Rightarrow> nat \<Rightarrow> nat \<Rightarrow> grid \<Rightarrow> grid" where
  "inflate_cell H W pb m i ii aug =
     (if inflation_source H W m i ii
      then (let top_index = max 0 (int i - pb);
                bottom_index = min (int H) (int i + pb);
                left_index = max 0 (int ii - pb);
                right_index = min (int W) (int ii + pb)
            in mark_window aug (nat top_index) (nat bottom_index)
                 (nat left_index) (nat right_index))
      else aug)"

definition inflate :: "nat \<Rightarrow> nat \<Rightarrow> int \<Rightarrow> grid \<Rightarrow> grid" where
  "inflate H W pb m =
     fold (\<lambda>i aug. fold (\<lambda>ii aug'. inflate_cell H W pb m i ii aug') [0..<W] aug) [0..<H] m"

text \<open>
  \<^verbatim>\<open>map_callback\<close> without the on-disk cache: reshape the flat message data, compute the
  buffer, inflate.
\<close>

definition map_callback :: "nat \<Rightarrow> nat \<Rightarrow> real \<Rightarrow> int \<Rightarrow> int list \<Rightarrow> error + grid" where
  "map_callback H W res ratio data =
     err_bind (reshape H W data) (\<lambda>m.
     err_bind (pixel_buffer res ratio) (\<lambda>pb. Inr (inflate H W pb m)))"

text \<open>
  Row (or column) \<open>r\<close> lies in the range the code marks around index \<open>i\<close>:
  \<^verbatim>\<open>range(max(0, i - pixel_buffer), min(n, i + pixel_buffer))\<close>.
\<close>

definition in_window :: "nat \<Rightarrow> int \<Rightarrow> nat \<Rightarrow> nat \<Rightarrow> bool" where
  "in_window n pb i r \<longleftrightarrow>
     max 0 (int i - pb) \<le> int r \<and> int r < min (int n) (int i + pb)"

definition occupied :: "grid \<Rightarrow> (nat \<times> nat) set" where
  "occupied m = {(r, c). r < length m \<and> c < length (m ! r) \<and> m ! r ! c = 100}"

section \<open>The planner object\<close>

record planner =
  world_width :: nat
  world_height :: nat
  resolution :: real
  com :: bool
  aug_map :: grid
  goal :: "real \<times> real"

section \<open>Collision checkers\<close>

text \<open>\<^verbatim>\<open>CSDA_planner.py\<close>, lines 312--326: the map is indexed without any bounds test.\<close>

definition collision_checker_CSDA :: "planner \<Rightarrow> real \<Rightarrow> real \<Rightarrow> error + bool" where
  "collision_checker_CSDA self x y =
     (if resolution self = 0 then Inl ZeroDivisionError
      else err_bind
             (np_get2 (aug_map self) (py_int (y / resolution self)) (py_int (x / resolution self)))
             (\<lambda>v. Inr (v = 100)))"

text \<open>
  \<^verbatim>\<open>DSPA_planner.py\<close>, lines 346--362: the four bounds tests come first and \<^verbatim>\<open>or\<close>
  short-circuits, so the map is read only when all of them fail.
\<close>

definition collision_checker_DSPA :: "planner \<Rightarrow> real \<Rightarrow> real \<Rightarrow> error + bool" where
  "collision_checker_DSPA self x y =
     (if resolution self = 0 then Inl ZeroDivisionError
      else let iy = py_int (y / resolution self); ix = py_int (x / resolution self)
           in if iy \<le> 0 \<or> int (world_height self) \<le> iy \<or> ix \<le> 0 \<or> int (world_width self) \<le> ix
              then Inr True
              else err_bind (np_get2 (aug_map self) iy ix) (\<lambda>v. Inr (v = 100)))"

section \<open>Motion model (\<^verbatim>\<open>Planner.motion_predict\<close>, identical in both planners)\<close>

type_synonym pose = "real \<times> real \<times> real"

text \<open>
  The loop \<^verbatim>\<open>for i in range(num_steps)\<close>; \<open>None\<close> is the COLLISION sentinel. The checker
  tests the position after the sub-step, and \<open>theta\<close> advances only after a free test.
\<close>

fun motion_steps ::
  "(real \<Rightarrow> real \<Rightarrow> error + bool) \<Rightarrow> nat \<Rightarrow> real \<Rightarrow> real \<Rightarrow> real \<Rightarrow> real \<Rightarrow> real \<Rightarrow> real
     \<Rightarrow> error + pose option" where
  "motion_steps chk 0 x y theta v w frequency = Inr (Some (x, y, theta))"
| "motion_steps chk (Suc n) x y theta v w frequency =
     (let dx = (if w \<noteq> 0 then - v / w * sin theta + v / w * sin (theta + w / frequency)
                else v * cos theta / frequency);
          dy = (if w \<noteq> 0 then v / w * cos theta - v / w * cos (theta + w / frequency)
                else v * sin theta / frequency);
          x' = x + dx;
          y' = y + dy
      in err_bind (chk x' y') (\<lambda>hit.
           if hit then Inr None
           else motion_steps chk n x' y' (theta + w / frequency) v w frequency))"

definition motion_predict ::
  "(real \<Rightarrow> real \<Rightarrow> error + bool) \<Rightarrow> real \<Rightarrow> real \<Rightarrow> real \<Rightarrow> real \<Rightarrow> real \<Rightarrow> real \<Rightarrow> real
     \<Rightarrow> error + pose option" where
  "motion_predict chk x y theta v w dt frequency =
     motion_steps chk (nat (py_int (dt * frequency))) x y theta v w frequency"

text \<open>The method as bound in each class, with the defaults \<^verbatim>\<open>dt=0.5, frequency=10\<close>.\<close>

definition motion_predict_CSDA ::
  "planner \<Rightarrow> real \<Rightarrow> real \<Rightarrow> real \<Rightarrow> real \<Rightarrow> real \<Rightarrow> error + pose option" where
  "motion_predict_CSDA self x y theta v w =
     motion_predict (collision_checker_CSDA self) x y theta v w (1 / 2) 10"

definition motion_predict_DSPA ::
  "planner \<Rightarrow> real \<Rightarrow> real \<Rightarrow> real \<Rightarrow> real \<Rightarrow> real \<Rightarrow> error + pose option" where
  "motion_predict_DSPA self x y theta v w =
     motion_predict (collision_checker_DSPA self) x y theta v w (1 / 2) 10"

type_synonym dstate = "int \<times> int \<times> int"

text \<open>\<^verbatim>\<open>DSPA_planner.py\<close>, \<^verbatim>\<open>discrete_motion_predict\<close>: two consecutive predictions, then rounding.\<close>

definition discrete_motion_predict ::
  "planner \<Rightarrow> int \<Rightarrow> int \<Rightarrow> int \<Rightarrow> real \<Rightarrow> int \<Rightarrow> error + dstate option" where
  "discrete_motion_predict self x y theta v w =
     (let w_radian = of_int w * pi / 2
      in err_bind (motion_predict_DSPA self (of_int x) (of_int y) (of_int theta * pi / 2) v w_radian)
           (\<lambda>first_step. case first_step of
               None \<Rightarrow> Inr None
             | Some (x1, y1, t1) \<Rightarrow>
                 err_bind (motion_predict_DSPA self x1 y1 t1 v w_radian)
                   (\<lambda>second_step. case second_step of
                       None \<Rightarrow> Inr None
                     | Some (x2, y2, t2) \<Rightarrow>
                         Inr (Some (py_round x2, py_round y2, py_round (t2 / (pi / 2)) mod 4)))))"

section \<open>Goal test\<close>

definition d_from_goal :: "planner \<Rightarrow> real \<Rightarrow> real \<Rightarrow> real" where
  "d_from_goal self px py = sqrt ((px - fst (goal self))\<^sup>2 + (py - snd (goal self))\<^sup>2)"

definition check_goal :: "planner \<Rightarrow> real \<Rightarrow> real \<Rightarrow> bool" where
  "check_goal self px py \<longleftrightarrow> d_from_goal self px py < 1 / 4"

section \<open>Deterministic search (\<^verbatim>\<open>CSDA_planner.py\<close>, \<^verbatim>\<open>generate_plan\<close>)\<close>

definition search_resolution :: "planner \<Rightarrow> real" where
  "search_resolution self = (if com self then 1 / 2 else 1 / 10)"

definition round_partial :: "planner \<Rightarrow> real \<Rightarrow> real" where
  "round_partial self x = of_int (py_round (x / search_resolution self)) * search_resolution self"

definition continuous_to_resolution :: "planner \<Rightarrow> pose \<Rightarrow> pose" where
  "continuous_to_resolution self continuous_state =
     (case continuous_state of (x, y, phi) \<Rightarrow>
        (round_partial self x, round_partial self y, round_partial self (phi / (pi / 2))))"

text \<open>A search node \<^verbatim>\<open>(f, g, state, action, parent)\<close>.\<close>

datatype node =
  Node (node_f: real) (node_g: int) (node_state: pose)
       (node_action: "(real \<times> real) option") (node_parent: "node option")

text \<open>\<^verbatim>\<open>[(1, w) for w in np.arange(-3.14, 3.14001, 1.57)]\<close>\<close>

definition search_actions :: "(real \<times> real) list" where
  "search_actions =
     [(1, - (314 / 100)), (1, - (157 / 100)), (1, 0), (1, 157 / 100), (1, 314 / 100)]"

text \<open>
  Lines 255--260, the body of \<^verbatim>\<open>for action in actions\<close>: the node pushed for one action,
  if any. The visited map (keyed by discretized states) is looked up at \<^verbatim>\<open>next_state\<close>
  itself, and it is not written here.
\<close>

definition expand_action ::
  "planner \<Rightarrow> (pose \<rightharpoonup> real) \<Rightarrow> node \<Rightarrow> real \<times> real \<Rightarrow> error + node option" where
  "expand_action self visited_states node action =
     (case node_state node of (x, y, theta) \<Rightarrow>
        err_bind (motion_predict_CSDA self x y theta (fst action) (snd action))
          (\<lambda>next_state. case next_state of
              None \<Rightarrow> Inr None
            | Some (nx, ny, ntheta) \<Rightarrow>
                (let new_f = d_from_goal self nx ny + of_int (node_g node) + 1
                 in if (case visited_states (nx, ny, ntheta) of
                          None \<Rightarrow> True
                        | Some old \<Rightarrow> new_f < old)
                    then Inr (Some (Node new_f (node_g node + 1) (nx, ny, ntheta)
                                      (Some action) (Some node)))
                    else Inr None)))"

fun expand ::
  "planner \<Rightarrow> (pose \<rightharpoonup> real) \<Rightarrow> node \<Rightarrow> (real \<times> real) list \<Rightarrow> error + node list" where
  "expand self visited_states node [] = Inr []"
| "expand self visited_states node (action # actions) =
     err_bind (expand_action self visited_states node action) (\<lambda>pushed.
     err_bind (expand self visited_states node actions) (\<lambda>rest.
       Inr (case pushed of None \<Rightarrow> rest | Some n \<Rightarrow> n # rest)))"

text \<open>
  One iteration of the \<^verbatim>\<open>while\<close> loop (lines 244--260) for the node just popped:
  the goal test, the visited test on the node's discretized state, the update of the
  visited map, and the expansion. The result carries the new visited map and the nodes
  pushed onto the queue, in order.
\<close>

datatype iteration = Goal_reached node | Skipped | Expanded "pose \<rightharpoonup> real" "node list"

definition search_iteration ::
  "planner \<Rightarrow> (real \<times> real) list \<Rightarrow> (pose \<rightharpoonup> real) \<Rightarrow> node \<Rightarrow> error + iteration" where
  "search_iteration self actions visited_states node =
     (if check_goal self (fst (node_state node)) (fst (snd (node_state node)))
      then Inr (Goal_reached node)
      else let discretized_state = continuous_to_resolution self (node_state node)
           in if (case visited_states discretized_state of
                    None \<Rightarrow> False
                  | Some old \<Rightarrow> old \<le> node_f node)
              then Inr Skipped
              else let visited_states' = visited_states(discretized_state \<mapsto> node_f node)
                   in err_bind (expand self visited_states' node actions)
                        (\<lambda>pushed. Inr (Expanded visited_states' pushed)))"

section \<open>Policy table and its serialisation (\<^verbatim>\<open>DSPA_planner.py\<close>)\<close>

text \<open>\<^verbatim>\<open>str\<close> of an integer, in decimal.\<close>

definition digit_char :: "nat \<Rightarrow> char" where
  "digit_char d = ''0123456789'' ! d"

fun str_nat :: "nat \<Rightarrow> string" where
  "str_nat n = (if n < 10 then [digit_char n] else str_nat (n div 10) @ [digit_char (n mod 10)])"

declare str_nat.simps [simp del]

definition str_int :: "int \<Rightarrow> string" where
  "str_int i = (if i < 0 then CHR ''-'' # str_nat (nat (- i)) else str_nat (nat i))"

text \<open>\<^verbatim>\<open>"{},{},{}".format(state[0], state[1], state[2] % 4)\<close>\<close>

definition format_key :: "dstate \<Rightarrow> string" where
  "format_key state =
     (case state of (x, y, theta) \<Rightarrow>
        str_int x @ '','' @ str_int y @ '','' @ str_int (theta mod 4))"

text \<open>A dict as an insertion-ordered association list; \<^verbatim>\<open>d[k] = v\<close>.\<close>

fun dict_set :: "'k \<Rightarrow> 'v \<Rightarrow> ('k \<times> 'v) list \<Rightarrow> ('k \<times> 'v) list" where
  "dict_set k v [] = [(k, v)]"
| "dict_set k v ((k', v') # ps) =
     (if k = k' then (k, v) # ps else (k', v') # dict_set k v ps)"

text \<open>\<^verbatim>\<open>','.join(parts)\<close>\<close>

fun comma_join :: "string list \<Rightarrow> string" where
  "comma_join [] = []"
| "comma_join [p] = p"
| "comma_join (p # q # ps) = p @ '','' @ comma_join (q # ps)"

text \<open>
  \<^verbatim>\<open>dump_action_table\<close>, lines 26--30: \<^verbatim>\<open>key = [str(i) for i in k]\<close> iterates over the key;
  the keys built by \<^verbatim>\<open>generate_plan\<close> are strings, whose elements are their characters.
\<close>

definition dump_key :: "string \<Rightarrow> string" where
  "dump_key k = comma_join (map (\<lambda>i. [i]) k)"

definition dump_action_table :: "(string \<times> 'v) list \<Rightarrow> (string \<times> 'v) list" where
  "dump_action_table action_table =
     fold (\<lambda>(k, v) tab. dict_set (dump_key k) v tab) action_table []"

text \<open>
  \<^verbatim>\<open>json.dump\<close> followed by \<^verbatim>\<open>json.load\<close>: string keys are kept, a tuple comes back as a
  list, \<^verbatim>\<open>None\<close> as \<^verbatim>\<open>None\<close>.
\<close>

definition json_reload :: "(string \<times> (int \<times> int) option) list \<Rightarrow> (string \<times> int list option) list" where
  "json_reload tab = map (\<lambda>(k, v). (k, map_option (\<lambda>(a, b). [a, b]) v)) tab"

text \<open>The executor's lookup, \<^verbatim>\<open>publish_stochastic_control\<close> lines 460--461.\<close>

definition lookup_action :: "(string \<times> 'v) list \<Rightarrow> dstate \<Rightarrow> error + 'v" where
  "lookup_action action_table current_state =
     (case map_of action_table (format_key current_state) of
        None \<Rightarrow> Inl KeyError
      | Some action \<Rightarrow> Inr action)"

section \<open>MDP value iteration (\<^verbatim>\<open>DSPA_planner.py\<close>, \<^verbatim>\<open>generate_plan\<close>)\<close>

definition crash_penalty :: real where
  "crash_penalty = - 20"

definition distance_penalty_normalization :: "planner \<Rightarrow> real" where
  "distance_penalty_normalization self =
     (of_nat (world_height self) * resolution self
        + of_nat (world_width self) * resolution self) * 10"

text \<open>The reward \<^verbatim>\<open>get_current_state_value\<close>, lines 213--220.\<close>

definition get_current_state_value :: "planner \<Rightarrow> dstate \<Rightarrow> error + real" where
  "get_current_state_value self state =
     (case state of (x, y, theta) \<Rightarrow>
        err_bind (collision_checker_DSPA self (of_int x) (of_int y)) (\<lambda>hit.
          if hit then Inr crash_penalty
          else if check_goal self (of_int x) (of_int y) then Inr 20
          else if distance_penalty_normalization self = 0 then Inl ZeroDivisionError
          else Inr (- (d_from_goal self (of_int x) (of_int y)
                        / distance_penalty_normalization self))))"

type_synonym state_values = "dstate \<rightharpoonup> real"

text \<open>\<^verbatim>\<open>get_next_state_value\<close>, lines 222--227; a state missing from the table is a \<^verbatim>\<open>KeyError\<close>.\<close>

definition get_next_state_value :: "state_values \<Rightarrow> dstate option \<Rightarrow> error + real" where
  "get_next_state_value values next_state =
     (case next_state of
        None \<Rightarrow> Inr crash_penalty
      | Some s \<Rightarrow> (case values s of None \<Rightarrow> Inl KeyError | Some v \<Rightarrow> Inr v))"

text \<open>\<^verbatim>\<open>get_forward_action_value\<close>, lines 229--240: the 0.9 / 0.05 / 0.05 mixture.\<close>

definition get_forward_action_value :: "planner \<Rightarrow> state_values \<Rightarrow> dstate \<Rightarrow> error + real" where
  "get_forward_action_value self values state =
     (case state of (x, y, theta) \<Rightarrow>
        err_bind (discrete_motion_predict self x y theta 1 0) (\<lambda>s1.
        err_bind (get_next_state_value values s1) (\<lambda>v1.
        err_bind (discrete_motion_predict self x y theta (pi / 2) 1) (\<lambda>s2.
        err_bind (get_next_state_value values s2) (\<lambda>v2.
        err_bind (discrete_motion_predict self x y theta (pi / 2) (- 1)) (\<lambda>s3.
        err_bind (get_next_state_value values s3) (\<lambda>v3.
          Inr (0 + v1 * (9 / 10) + v2 * (5 / 100) + v3 * (5 / 100)))))))))"

text \<open>\<^verbatim>\<open>actions = [(1, 0), (0, 1), (0, -1)]\<close>: FORWARD, TURN\_LEFT, TURN\_RIGHT.\<close>

definition mdp_actions :: "(int \<times> int) list" where
  "mdp_actions = [(1, 0), (0, 1), (0, - 1)]"

text \<open>
  The expected next-state value of an action, the branch that appears twice in
  \<^verbatim>\<open>generate_plan\<close> (lines 283--291 and 301--309).
\<close>

definition next_state_value ::
  "planner \<Rightarrow> state_values \<Rightarrow> dstate \<Rightarrow> int \<times> int \<Rightarrow> error + real" where
  "next_state_value self values state action =
     (if action = (0, 1) \<or> action = (0, - 1)
      then (case state of (x, y, theta) \<Rightarrow>
              err_bind (discrete_motion_predict self x y theta (of_int (fst action)) (snd action))
                (get_next_state_value values))
      else get_forward_action_value self values state)"

text \<open>The loop over the actions inside a sweep (lines 277--295), \<open>state_value\<close> the running maximum.\<close>

fun bellman_loop ::
  "planner \<Rightarrow> state_values \<Rightarrow> dstate \<Rightarrow> (int \<times> int) list \<Rightarrow> real \<Rightarrow> error + real" where
  "bellman_loop self values state [] state_value = Inr state_value"
| "bellman_loop self values state (action # actions) state_value =
     err_bind (get_current_state_value self state) (\<lambda>current_state_value.
     err_bind (next_state_value self values state action) (\<lambda>nsv.
       let total_value = current_state_value + 95 / 100 * nsv
       in bellman_loop self values state actions
            (if state_value < total_value then total_value else state_value)))"

definition update_state :: "planner \<Rightarrow> state_values \<Rightarrow> dstate \<Rightarrow> error + state_values" where
  "update_state self values state =
     err_bind (bellman_loop self values state mdp_actions (- 10000000))
       (\<lambda>state_value. Inr (values(state \<mapsto> state_value)))"

text \<open>One sweep updates the table in place, state after state; then the sweeps are repeated.\<close>

fun sweep :: "planner \<Rightarrow> dstate list \<Rightarrow> state_values \<Rightarrow> error + state_values" where
  "sweep self [] values = Inr values"
| "sweep self (state # states) values =
     err_bind (update_state self values state) (sweep self states)"

fun value_sweeps :: "planner \<Rightarrow> dstate list \<Rightarrow> nat \<Rightarrow> state_values \<Rightarrow> error + state_values" where
  "value_sweeps self states 0 values = Inr values"
| "value_sweeps self states (Suc n) values =
     err_bind (sweep self states values) (value_sweeps self states n)"

text \<open>Policy extraction, lines 298--313: \<open>(max_value, best_action)\<close> starts at \<open>(-10000000, None)\<close>.\<close>

fun best_action_loop ::
  "planner \<Rightarrow> state_values \<Rightarrow> dstate \<Rightarrow> (int \<times> int) list \<Rightarrow> real \<times> (int \<times> int) option
     \<Rightarrow> error + real \<times> (int \<times> int) option" where
  "best_action_loop self values state [] best = Inr best"
| "best_action_loop self values state (action # actions) best =
     err_bind (next_state_value self values state action) (\<lambda>nsv.
       best_action_loop self values state actions
         (if fst best < nsv then (nsv, Some action) else best))"

fun extract_policy ::
  "planner \<Rightarrow> state_values \<Rightarrow> dstate list \<Rightarrow> (string \<times> (int \<times> int) option) list
     \<Rightarrow> error + (string \<times> (int \<times> int) option) list" where
  "extract_policy self values [] action_table = Inr action_table"
| "extract_policy self values (state # states) action_table =
     err_bind (best_action_loop self values state mdp_actions (- 10000000, None)) (\<lambda>best.
       extract_policy self values states (dict_set (format_key state) (snd best) action_table))"

text \<open>The state list of lines 259--263: height outermost, then width, then the four headings.\<close>

definition mdp_states :: "planner \<Rightarrow> dstate list" where
  "mdp_states self =
     concat (map (\<lambda>height.
       concat (map (\<lambda>width. map (\<lambda>theta. (width, height, theta)) [0..3])
         [0..py_int (of_nat (world_width self) * resolution self)]))
       [0..py_int (of_nat (world_height self) * resolution self)])"

definition initial_values :: "dstate list \<Rightarrow> state_values" where
  "initial_values states = fold (\<lambda>state values. values(state \<mapsto> 0)) states Map.empty"

definition sweep_count :: "planner \<Rightarrow> nat" where
  "sweep_count self = (if com self then 100 else 200)"

definition value_iteration :: "planner \<Rightarrow> error + state_values" where
  "value_iteration self =
     value_sweeps self (mdp_states self) (sweep_count self) (initial_values (mdp_states self))"

definition generate_plan :: "planner \<Rightarrow> error + (string \<times> (int \<times> int) option) list" where
  "generate_plan self =
     err_bind (value_iteration self) (\<lambda>values. extract_policy self values (mdp_states self) [])"

text \<open>The main program's use of the plan: generate it, then look a state up as the executor does.\<close>

definition plan_lookup :: "planner \<Rightarrow> dstate \<Rightarrow> error + (int \<times> int) option" where
  "plan_lookup self current_state =
     err_bind (generate_plan self) (\<lambda>action_table. lookup_action action_table current_state)"

text \<open>
  Predicates used in the statements below: a planner with a positive resolution and an
  inflated map of the declared shape, and the five \<open>(v, w)\<close> pairs that \<^verbatim>\<open>generate_plan\<close>
  passes to \<^verbatim>\<open>discrete_motion_predict\<close> (straight moves of whole units, and turns in units of
  a quarter circle).
\<close>

definition good_planner :: "planner \<Rightarrow> bool" where
  "good_planner self \<longleftrightarrow>
     0 < resolution self \<and> wf_grid (world_height self) (world_width self) (aug_map self)"

definition valid_move :: "real \<Rightarrow> int \<Rightarrow> bool" where
  "valid_move v w \<longleftrightarrow>
     (\<exists>k :: int. (w = 0 \<and> v = of_int k) \<or> ((w = 1 \<or> w = - 1) \<and> v = of_int k * (pi / 2)))"

section \<open>Motion model in binary64 arithmetic\<close>

text \<open>
  Claims about the exact value that \<^verbatim>\<open>motion_predict\<close> returns are checked against the
  arithmetic the code runs in: every operation on Python floats is rounded to IEEE-754
  binary64. \<open>double_round\<close> rounds a real number to the nearest binary64 number, ties to the
  even significand; numbers below \<open>2\<^sup>-\<^sup>1\<^sup>0\<^sup>2\<^sup>2\<close> in magnitude are rounded on the subnormal grid
  \<open>2\<^sup>-\<^sup>1\<^sup>0\<^sup>7\<^sup>4\<close>. Overflow to infinity is not modelled; every value met below is far from
  it.
\<close>

definition double_round :: "real \<Rightarrow> real" where
  "double_round z =
     (if z = 0 then 0
      else let e = max (\<lfloor>log 2 \<bar>z\<bar>\<rfloor> - 52) (- 1074)
           in sgn z * of_int (py_round (\<bar>z\<bar> / 2 powi e)) * 2 powi e)"

text \<open>The four float operations \<^verbatim>\<open>+\<close>, \<^verbatim>\<open>-\<close>, \<^verbatim>\<open>*\<close>, \<^verbatim>\<open>/\<close>: the exact result, rounded.\<close>

definition fadd :: "real \<Rightarrow> real \<Rightarrow> real" where
  "fadd a b = double_round (a + b)"

definition fsub :: "real \<Rightarrow> real \<Rightarrow> real" where
  "fsub a b = double_round (a - b)"

definition fmul :: "real \<Rightarrow> real \<Rightarrow> real" where
  "fmul a b = double_round (a * b)"

definition fdiv :: "real \<Rightarrow> real \<Rightarrow> real" where
  "fdiv a b = double_round (a / b)"

text \<open>
  \<^verbatim>\<open>CSDA_planner.py\<close>, \<^verbatim>\<open>collision_checker\<close>, with the two divisions by the resolution rounded
  before \<^verbatim>\<open>int\<close> truncates them.
\<close>

definition collision_checker_CSDA_double :: "planner \<Rightarrow> real \<Rightarrow> real \<Rightarrow> error + bool" where
  "collision_checker_CSDA_double self x y =
     (if resolution self = 0 then Inl ZeroDivisionError
      else err_bind
             (np_get2 (aug_map self) (py_int (fdiv y (resolution self)))
                (py_int (fdiv x (resolution self))))
             (\<lambda>v. Inr (v = 100)))"

text \<open>
  The loop of \<^verbatim>\<open>motion_predict\<close> with every operation rounded, in the order Python evaluates
  them: \<^verbatim>\<open>- v / w * np.sin(theta)\<close> is \<open>((-v) / w) * sin\<close>, and \<^verbatim>\<open>v * np.cos(theta) / frequency\<close>
  is \<open>(v * cos) / frequency\<close>. The library functions \<^verbatim>\<open>np.cos\<close> and \<^verbatim>\<open>np.sin\<close> are not fixed by
  IEEE-754, so they are arguments of the model.
\<close>

fun motion_steps_double ::
  "(real \<Rightarrow> real) \<Rightarrow> (real \<Rightarrow> real) \<Rightarrow> (real \<Rightarrow> real \<Rightarrow> error + bool) \<Rightarrow> nat
     \<Rightarrow> real \<Rightarrow> real \<Rightarrow> real \<Rightarrow> real \<Rightarrow> real \<Rightarrow> real \<Rightarrow> error + pose option" where
  "motion_steps_double np_cos np_sin chk 0 x y theta v w frequency = Inr (Some (x, y, theta))"
| "motion_steps_double np_cos np_sin chk (Suc n) x y theta v w frequency =
     (let dx = (if w \<noteq> 0
                then fadd (fmul (fdiv (- v) w) (np_sin theta))
                       (fmul (fdiv v w) (np_sin (fadd theta (fdiv w frequency))))
                else fdiv (fmul v (np_cos theta)) frequency);
          dy = (if w \<noteq> 0
                then fsub (fmul (fdiv v w) (np_cos theta))
                       (fmul (fdiv v w) (np_cos (fadd theta (fdiv w frequency))))
                else fdiv (fmul v (np_sin theta)) frequency);
          x' = fadd x dx;
          y' = fadd y dy
      in err_bind (chk x' y') (\<lambda>hit.
           if hit then Inr None
           else motion_steps_double np_cos np_sin chk n x' y' (fadd theta (fdiv w frequency))
                  v w frequency))"

definition motion_predict_double ::
  "(real \<Rightarrow> real) \<Rightarrow> (real \<Rightarrow> real) \<Rightarrow> (real \<Rightarrow> real \<Rightarrow> error + bool)
     \<Rightarrow> real \<Rightarrow> real \<Rightarrow> real \<Rightarrow> real \<Rightarrow> real \<Rightarrow> real \<Rightarrow> real \<Rightarrow> error + pose option" where
  "motion_predict_double np_cos np_sin chk x y theta v w dt frequency =
     motion_steps_double np_cos np_sin chk (nat (py_int (fmul dt frequency)))
       x y theta v w frequency"

definition motion_predict_CSDA_double ::
  "(real \<Rightarrow> real) \<Rightarrow> (real \<Rightarrow> real) \<Rightarrow> planner
     \<Rightarrow> real \<Rightarrow> real \<Rightarrow> real \<Rightarrow> real \<Rightarrow> real \<Rightarrow> error + pose option" where
  "motion_predict_CSDA_double np_cos np_sin self x y theta v w =
     motion_predict_double np_cos np_sin (collision_checker_CSDA_double self)
       x y theta v w (1 / 2) 10"

text \<open>\<open>n\<close> rounded additions of \<open>d\<close> to \<open>a\<close>: the effect of \<open>n\<close> passes of \<^verbatim>\<open>x += dx\<close>.\<close>

fun accumulate :: "nat \<Rightarrow> real \<Rightarrow> real \<Rightarrow> real" where
  "accumulate 0 a d = a"
| "accumulate (Suc n) a d = accumulate n (fadd a d) d"

text \<open>
  An instance of \<^verbatim>\<open>np.cos\<close> and \<^verbatim>\<open>np.sin\<close> for the examples: the correctly rounded cosine
  and sine. At 0 they are exactly 1 and 0, as for every floating-point library.
\<close>

definition cos_rounded :: "real \<Rightarrow> real" where
  "cos_rounded t = double_round (cos t)"

definition sin_rounded :: "real \<Rightarrow> real" where
  "sin_rounded t = double_round (sin t)"

section \<open>Predicates on value tables and states\<close>

text \<open>
  Used in the statements and invariants about value iteration: lower and upper bounds on
  every entry of the table; a state the MDP checker reports free; a goal so far away that
  the distance penalty of every state reaches the bound \<open>10000000\<close> at which the running
  maximum of a sweep starts; and the table reached in that case.
\<close>

definition values_ge :: "real \<Rightarrow> state_values \<Rightarrow> bool" where
  "values_ge L values \<longleftrightarrow> (\<forall>s v. values s = Some v \<longrightarrow> L \<le> v)"

definition values_le :: "real \<Rightarrow> state_values \<Rightarrow> bool" where
  "values_le U values \<longleftrightarrow> (\<forall>s v. values s = Some v \<longrightarrow> v \<le> U)"

definition free_state :: "planner \<Rightarrow> dstate \<Rightarrow> bool" where
  "free_state self s \<longleftrightarrow>
     collision_checker_DSPA self (of_int (fst s)) (of_int (fst (snd s))) = Inr False"

definition far_goal :: "planner \<Rightarrow> bool" where
  "far_goal self \<longleftrightarrow>
     (\<forall>s\<in>set (mdp_states self).
        \<not> check_goal self (of_int (fst s)) (of_int (fst (snd s)))
        \<and> 10000000 \<le> d_from_goal self (of_int (fst s)) (of_int (fst (snd s)))
                         / distance_penalty_normalization self)"

definition settled :: "planner \<Rightarrow> dstate set \<Rightarrow> state_values \<Rightarrow> bool" where
  "settled self P values \<longleftrightarrow>
     values_le 0 values \<and> (\<forall>s\<in>P. free_state self s \<longrightarrow> values s = Some (- 10000000))"

text \<open>A state from which none of the five moves collides.\<close>

definition open_state :: "planner \<Rightarrow> dstate \<Rightarrow> bool" where
  "open_state self s \<longleftrightarrow>
     (case s of (x, y, h) \<Rightarrow>
        discrete_motion_predict self x y h 1 0 \<noteq> Inr None
        \<and> discrete_motion_predict self x y h (pi / 2) 1 \<noteq> Inr None
        \<and> discrete_motion_predict self x y h (pi / 2) (- 1) \<noteq> Inr None
        \<and> discrete_motion_predict self x y h 0 1 \<noteq> Inr None
        \<and> discrete_motion_predict self x y h 0 (- 1) \<noteq> Inr None)"

section \<open>Inflation: shape and cell values\<close>

lemma shape_update: "map length (a[h := (a ! h)[w := v]]) = map length a"
proof (cases "h < length a")
  case True
  then have "(map length a)[h := length (a ! h)] = map length a"
    by (metis list_update_id map_update)
  then show ?thesis by (simp add: map_update)
next
  case False
  then show ?thesis by (simp add: list_update_beyond)
qed

lemma shape_fold_row:
  "map length (fold (\<lambda>w a. a[h := (a ! h)[w := v]]) ws a) = map length a"
  by (induction ws arbitrary: a) (simp_all add: shape_update)

lemma shape_mark_row: "map length (mark_row a h l r) = map length a"
  unfolding mark_row_def by (rule shape_fold_row)

lemma shape_fold_window:
  "map length (fold (\<lambda>h a. mark_row a h l r) hs a) = map length a"
  by (induction hs arbitrary: a) (simp_all add: shape_mark_row)

lemma shape_mark_window: "map length (mark_window a t b l r) = map length a"
  unfolding mark_window_def by (rule shape_fold_window)

lemma shape_inflate_cell: "map length (inflate_cell H W pb m i ii a) = map length a"
  unfolding inflate_cell_def by (simp add: shape_mark_window Let_def)

lemma shape_fold_cells:
  "map length (fold (\<lambda>ii a. inflate_cell H W pb m i ii a) iis a) = map length a"
  by (induction iis arbitrary: a) (simp_all add: shape_inflate_cell)

lemma shape_fold_rows:
  "map length (fold (\<lambda>i a. fold (\<lambda>ii a'. inflate_cell H W pb m i ii a') iis a) is a)
   = map length a"
  by (induction "is" arbitrary: a) (simp_all add: shape_fold_cells)

lemma shape_inflate: "map length (inflate H W pb m) = map length m"
  unfolding inflate_def by (rule shape_fold_rows)

lemma wf_grid_shape: "wf_grid H W m \<longleftrightarrow> map length m = replicate H W"
  unfolding wf_grid_def
  by (metis length_map length_replicate map_replicate_const map_eq_conv)

lemma wf_grid_inflate: "wf_grid H W m \<Longrightarrow> wf_grid H W (inflate H W pb m)"
  by (simp add: wf_grid_shape shape_inflate)

lemma wf_grid_nth: "wf_grid H W m \<Longrightarrow> r < H \<Longrightarrow> length (m ! r) = W"
  by (simp add: wf_grid_def)

lemma shape_nth:
  "map length a = map length b \<Longrightarrow> r < length a \<Longrightarrow> length (a ! r) = length (b ! r)"
  by (metis length_map nth_map)

lemma cell_update:
  assumes "r < length a" "c < length (a ! r)"
  shows "a[h := (a ! h)[w := v]] ! r ! c = (if r = h \<and> c = w then v else a ! r ! c)"
proof (cases "r = h")
  case True
  then show ?thesis using assms by (simp add: nth_list_update)
next
  case False
  then show ?thesis by simp
qed

lemma cell_fold_row:
  assumes "r < length a" "c < length (a ! r)"
  shows "fold (\<lambda>w a. a[h := (a ! h)[w := v]]) ws a ! r ! c
         = (if r = h \<and> c \<in> set ws then v else a ! r ! c)"
  using assms
proof (induction ws arbitrary: a)
  case Nil
  then show ?case by simp
next
  case (Cons w ws)
  let ?a = "a[h := (a ! h)[w := v]]"
  have len: "r < length ?a" using Cons.prems by simp
  have "length (?a ! r) = length (a ! r)"
    using Cons.prems(1) by (cases "r = h") (simp_all)
  then have c: "c < length (?a ! r)" using Cons.prems by simp
  show ?case
    using Cons.IH[OF len c] cell_update[OF Cons.prems, of h w v] by auto
qed

lemma cell_mark_row:
  assumes "r < length a" "c < length (a ! r)"
  shows "mark_row a h l rg ! r ! c = (if r = h \<and> l \<le> c \<and> c < rg then 100 else a ! r ! c)"
  unfolding mark_row_def using cell_fold_row[OF assms] by simp

lemma cell_fold_window:
  assumes "r < length a" "c < length (a ! r)"
  shows "fold (\<lambda>h a. mark_row a h l rg) hs a ! r ! c
         = (if r \<in> set hs \<and> l \<le> c \<and> c < rg then 100 else a ! r ! c)"
  using assms
proof (induction hs arbitrary: a)
  case Nil
  then show ?case by simp
next
  case (Cons h hs)
  let ?a = "mark_row a h l rg"
  have sh: "map length ?a = map length a" by (rule shape_mark_row)
  have len: "r < length ?a" using Cons.prems sh by (metis length_map)
  have c: "c < length (?a ! r)" using shape_nth[OF sh len] Cons.prems by simp
  show ?case
    using Cons.IH[OF len c] cell_mark_row[OF Cons.prems, of h l rg] by auto
qed

lemma cell_mark_window:
  assumes "r < length a" "c < length (a ! r)"
  shows "mark_window a t b l rg ! r ! c
         = (if t \<le> r \<and> r < b \<and> l \<le> c \<and> c < rg then 100 else a ! r ! c)"
  unfolding mark_window_def using cell_fold_window[OF assms] by simp

lemma cell_inflate_cell:
  assumes "r < length a" "c < length (a ! r)"
  shows "inflate_cell H W pb m i ii a ! r ! c
         = (if inflation_source H W m i ii \<and> in_window H pb i r \<and> in_window W pb ii c
            then 100 else a ! r ! c)"
  unfolding inflate_cell_def in_window_def Let_def
  using cell_mark_window[OF assms] by auto

lemma cell_fold_cells:
  assumes "r < length a" "c < length (a ! r)"
  shows "fold (\<lambda>ii a. inflate_cell H W pb m i ii a) iis a ! r ! c
         = (if \<exists>ii \<in> set iis. inflation_source H W m i ii \<and> in_window H pb i r
                  \<and> in_window W pb ii c
            then 100 else a ! r ! c)"
  using assms
proof (induction iis arbitrary: a)
  case Nil
  then show ?case by simp
next
  case (Cons ii iis)
  let ?a = "inflate_cell H W pb m i ii a"
  have sh: "map length ?a = map length a" by (rule shape_inflate_cell)
  have len: "r < length ?a" using Cons.prems sh by (metis length_map)
  have c: "c < length (?a ! r)" using shape_nth[OF sh len] Cons.prems by simp
  show ?case
    using Cons.IH[OF len c] cell_inflate_cell[OF Cons.prems, of H W pb m i ii] by auto
qed

lemma cell_fold_rows:
  assumes "r < length a" "c < length (a ! r)"
  shows "fold (\<lambda>i a. fold (\<lambda>ii a'. inflate_cell H W pb m i ii a') iis a) is a ! r ! c
         = (if \<exists>i \<in> set is. \<exists>ii \<in> set iis.
                 inflation_source H W m i ii \<and> in_window H pb i r \<and> in_window W pb ii c
            then 100 else a ! r ! c)"
  using assms
proof (induction "is" arbitrary: a)
  case Nil
  then show ?case by simp
next
  case (Cons i "is")
  let ?a = "fold (\<lambda>ii a'. inflate_cell H W pb m i ii a') iis a"
  have sh: "map length ?a = map length a" by (rule shape_fold_cells)
  have len: "r < length ?a" using Cons.prems sh by (metis length_map)
  have c: "c < length (?a ! r)" using shape_nth[OF sh len] Cons.prems by simp
  show ?case
    using Cons.IH[OF len c] cell_fold_cells[OF Cons.prems, of H W pb m i iis] by auto
qed

lemma cell_inflate:
  assumes "wf_grid H W m" "r < H" "c < W"
  shows "inflate H W pb m ! r ! c
         = (if \<exists>i<H. \<exists>ii<W. inflation_source H W m i ii \<and> in_window H pb i r
                  \<and> in_window W pb ii c
            then 100 else m ! r ! c)"
proof -
  have "r < length m" "c < length (m ! r)"
    using assms by (auto simp: wf_grid_def)
  from cell_fold_rows[OF this, of H W pb m "[0..<W]" "[0..<H]"]
  show ?thesis unfolding inflate_def by (simp add: Bex_def)
qed

lemma inflate_nonpositive_buffer:
  assumes "pb \<le> 0"
  shows "inflate H W pb m = m"
proof -
  have cell: "inflate_cell H W pb m i ii a = a" for i ii a
  proof -
    have "nat (min (int H) (int i + pb)) \<le> nat (max 0 (int i - pb))"
      using assms by simp
    then show ?thesis
      unfolding inflate_cell_def mark_window_def Let_def by simp
  qed
  have inner: "fold (\<lambda>ii a'. inflate_cell H W pb m i ii a') iis a = a" for i iis a
    by (induction iis arbitrary: a) (simp_all add: cell)
  have "fold (\<lambda>i a. fold (\<lambda>ii a'. inflate_cell H W pb m i ii a') [0..<W] a) is a = a" for "is" a
    by (induction "is" arbitrary: a) (simp_all add: inner)
  then show ?thesis unfolding inflate_def by simp
qed

lemma rows_of_wf: "length xs = H * W \<Longrightarrow> wf_grid H W (rows_of H W xs)"
proof (induction H arbitrary: xs)
  case 0
  then show ?case by (simp add: wf_grid_def)
next
  case (Suc H)
  have "length (drop W xs) = H * W" using Suc.prems by simp
  from Suc.IH[OF this] Suc.prems show ?case by (simp add: wf_grid_def)
qed

lemma rows_of_nth:
  "length xs = H * W \<Longrightarrow> r < H \<Longrightarrow> c < W \<Longrightarrow> rows_of H W xs ! r ! c = xs ! (r * W + c)"
proof (induction H arbitrary: xs r)
  case 0
  then show ?case by simp
next
  case (Suc H)
  show ?case
  proof (cases r)
    case 0
    then show ?thesis using Suc.prems by simp
  next
    case (Suc r')
    have "length (drop W xs) = H * W" using Suc.prems by simp
    from Suc.IH[OF this, of r'] Suc.prems Suc
    show ?thesis by (simp add: add.commute add.left_commute)
  qed
qed

section \<open>Claims about inflation\<close>

text \<open>
  C6. Inflation is monotonic: every cell occupied (value 100) in the raw grid is occupied
  in the inflated grid, whatever the pixel buffer.
\<close>

theorem inflate_monotonic:
  assumes "wf_grid H W m"
  shows "occupied m \<subseteq> occupied (inflate H W pb m)"
proof
  fix p assume p: "p \<in> occupied m"
  obtain r c where rc: "p = (r, c)" by (cases p)
  from p rc have r: "r < length m" and c: "c < length (m ! r)" and v: "m ! r ! c = 100"
    by (auto simp: occupied_def)
  have rH: "r < H" and cW: "c < W" using assms r c by (auto simp: wf_grid_def)
  have sh: "map length (inflate H W pb m) = map length m" by (rule shape_inflate)
  have r': "r < length (inflate H W pb m)" using r sh by (metis length_map)
  have c': "c < length (inflate H W pb m ! r)" using shape_nth[OF sh r'] c by simp
  have "inflate H W pb m ! r ! c = 100"
    using cell_inflate[OF assms rH cW, of pb] v by simp
  then show "p \<in> occupied (inflate H W pb m)"
    using rc r' c' by (simp add: occupied_def)
qed

theorem inflate_monotonic_witness:
  "wf_grid 3 3 [[0, 0, 0], [0, 100, 0], [0, 0, 0]]
   \<and> (1, 1) \<in> occupied [[0, 0, 0], [0, 100, 0], [0, 0, 0]]
   \<and> (1, 1) \<in> occupied (inflate 3 3 1 [[0, 0, 0], [0, 100, 0], [0, 0, 0]])"
proof -
  let ?G = "[[0, 0, 0], [0, 100, 0], [0, 0, 0]] :: grid"
  have wf: "wf_grid 3 3 ?G" by (simp add: wf_grid_def)
  have occ: "(1, 1) \<in> occupied ?G" by (simp add: occupied_def)
  from inflate_monotonic[OF wf, of 1] occ wf show ?thesis by blast
qed

text \<open>
  C2 (as amended). \<^verbatim>\<open>map_callback\<close> computes the buffer by truncation,
  \<open>pb = int(ROBOT_SIZE / resolution * inflation_ratio)\<close>. For every raw cell \<open>(i, ii)\<close> that is
  occupied or on the border, every output cell \<open>(r, c)\<close> of the grid with
  \<open>i - pb \<le> r < i + pb\<close> and \<open>ii - pb \<le> c < ii + pb\<close> is 100. Every output cell is
  either 100 or equal to the raw cell, and an output cell that lies outside the square
  window of half-width \<open>pb\<close> of every such raw cell equals the raw cell. Nothing is said
  about the far edge \<open>r = i + pb\<close>, \<open>c = ii + pb\<close> of a window.
\<close>

theorem map_callback_inflation:
  assumes "map_callback H W res ratio data = Inr aug" and "r < H" and "c < W"
  shows "wf_grid H W aug \<and>
         (let pb = py_int (ROBOT_SIZE / res * of_int ratio)
          in ((\<exists>i<H. \<exists>ii<W.
                 (data ! (i * W + ii) = 100 \<or> i = 0 \<or> i = H - 1 \<or> ii = 0 \<or> ii = W - 1)
                 \<and> int i - pb \<le> int r \<and> int r < int i + pb
                 \<and> int ii - pb \<le> int c \<and> int c < int ii + pb)
               \<longrightarrow> aug ! r ! c = 100)
             \<and> (aug ! r ! c = 100 \<or> aug ! r ! c = data ! (r * W + c))
             \<and> ((\<forall>i<H. \<forall>ii<W.
                    (data ! (i * W + ii) = 100 \<or> i = 0 \<or> i = H - 1 \<or> ii = 0 \<or> ii = W - 1)
                    \<longrightarrow> pb < \<bar>int r - int i\<bar> \<or> pb < \<bar>int c - int ii\<bar>)
                 \<longrightarrow> aug ! r ! c = data ! (r * W + c)))"
proof -
  let ?pb = "py_int (ROBOT_SIZE / res * of_int ratio)"
  let ?m = "rows_of H W data"
  let ?src = "\<lambda>i ii. data ! (i * W + ii) = 100 \<or> i = 0 \<or> i = H - 1 \<or> ii = 0 \<or> ii = W - 1"
  let ?marked = "\<exists>i<H. \<exists>ii<W. ?src i ii \<and> in_window H ?pb i r \<and> in_window W ?pb ii c"
  from assms(1) have len: "length data = H * W" and res: "res \<noteq> 0"
    by (auto simp: map_callback_def err_bind_def reshape_def pixel_buffer_def
             split: if_splits sum.splits)
  from assms(1) len res have aug: "aug = inflate H W ?pb ?m"
    by (simp add: map_callback_def err_bind_def reshape_def pixel_buffer_def)
  have wf: "wf_grid H W ?m" by (rule rows_of_wf[OF len])
  have src: "inflation_source H W ?m i ii \<longleftrightarrow> ?src i ii" if "i < H" "ii < W" for i ii
    using that rows_of_nth[OF len that] by (auto simp: inflation_source_def)
  have ex: "(\<exists>i<H. \<exists>ii<W. inflation_source H W ?m i ii \<and> in_window H ?pb i r
                 \<and> in_window W ?pb ii c) \<longleftrightarrow> ?marked"
    using src by blast
  have "aug ! r ! c =
          (if \<exists>i<H. \<exists>ii<W. inflation_source H W ?m i ii \<and> in_window H ?pb i r
                  \<and> in_window W ?pb ii c
           then 100 else ?m ! r ! c)"
    unfolding aug by (rule cell_inflate[OF wf assms(2,3)])
  then have cell: "aug ! r ! c = (if ?marked then 100 else data ! (r * W + c))"
    unfolding ex rows_of_nth[OF len assms(2,3)] .
  have winr: "in_window H ?pb i r \<longleftrightarrow> int i - ?pb \<le> int r \<and> int r < int i + ?pb" for i
    using assms(2) by (auto simp: in_window_def)
  have winc: "in_window W ?pb ii c \<longleftrightarrow> int ii - ?pb \<le> int c \<and> int c < int ii + ?pb" for ii
    using assms(3) by (auto simp: in_window_def)
  have near: "(\<exists>i<H. \<exists>ii<W. ?src i ii \<and> int i - ?pb \<le> int r \<and> int r < int i + ?pb
                 \<and> int ii - ?pb \<le> int c \<and> int c < int ii + ?pb) \<longrightarrow> aug ! r ! c = 100"
  proof
    assume "\<exists>i<H. \<exists>ii<W. ?src i ii \<and> int i - ?pb \<le> int r \<and> int r < int i + ?pb
                 \<and> int ii - ?pb \<le> int c \<and> int c < int ii + ?pb"
    then have m: ?marked unfolding winr winc by blast
    show "aug ! r ! c = 100" by (rule trans[OF cell if_P[OF m]])
  qed
  have either: "aug ! r ! c = 100 \<or> aug ! r ! c = data ! (r * W + c)"
  proof (cases ?marked)
    case True
    from trans[OF cell if_P[OF True]] show ?thesis by (rule disjI1)
  next
    case False
    from trans[OF cell if_not_P[OF False]] show ?thesis by (rule disjI2)
  qed
  have far: "(\<forall>i<H. \<forall>ii<W. ?src i ii \<longrightarrow> ?pb < \<bar>int r - int i\<bar> \<or> ?pb < \<bar>int c - int ii\<bar>)
             \<longrightarrow> aug ! r ! c = data ! (r * W + c)"
  proof
    assume a: "\<forall>i<H. \<forall>ii<W. ?src i ii \<longrightarrow> ?pb < \<bar>int r - int i\<bar> \<or> ?pb < \<bar>int c - int ii\<bar>"
    have nm: "\<not> ?marked"
    proof
      assume ?marked
      then obtain i ii where i: "i < H" "ii < W" "?src i ii"
        and w: "int i - ?pb \<le> int r" "int r < int i + ?pb"
               "int ii - ?pb \<le> int c" "int c < int ii + ?pb"
        unfolding winr winc by blast
      from a i have "?pb < \<bar>int r - int i\<bar> \<or> ?pb < \<bar>int c - int ii\<bar>" by blast
      with w show False by linarith
    qed
    show "aug ! r ! c = data ! (r * W + c)" by (rule trans[OF cell if_not_P[OF nm]])
  qed
  have "wf_grid H W aug" unfolding aug by (rule wf_grid_inflate[OF wf])
  with near either far show ?thesis unfolding Let_def by blast
qed

theorem map_callback_inflation_witness:
  "map_callback 5 5 (1 / 2) 2 (replicate 25 0)
     = Inr (inflate 5 5 1 (rows_of 5 5 (replicate 25 0)))
   \<and> inflate 5 5 1 (rows_of 5 5 (replicate 25 0)) ! 3 ! 3 = 100
   \<and> inflate 5 5 1 (rows_of 5 5 (replicate 25 0)) ! 2 ! 2 = 0"
proof -
  let ?D = "replicate 25 0 :: int list"
  let ?A = "inflate 5 5 1 (rows_of 5 5 ?D)"
  have pb: "py_int (ROBOT_SIZE / (1 / 2) * of_int 2) = 1"
    by (simp add: py_int_def ROBOT_SIZE_def)
  have run: "map_callback 5 5 (1 / 2) 2 ?D = Inr ?A"
    using pb by (simp add: map_callback_def err_bind_def reshape_def pixel_buffer_def)
  have l3: "(3::nat) < 5" and l2: "(2::nat) < 5" by simp_all
  have near: "\<exists>i<5. \<exists>ii<5.
      (?D ! (i * 5 + ii) = 100 \<or> i = 0 \<or> i = 5 - 1 \<or> ii = 0 \<or> ii = 5 - 1)
      \<and> int i - 1 \<le> int 3 \<and> int 3 < int i + 1 \<and> int ii - 1 \<le> int 3 \<and> int 3 < int ii + 1"
    by (intro exI[of _ 4] conjI) simp_all
  have far: "\<forall>i<5. \<forall>ii<5.
      (?D ! (i * 5 + ii) = 100 \<or> i = 0 \<or> i = 5 - 1 \<or> ii = 0 \<or> ii = 5 - 1)
      \<longrightarrow> 1 < \<bar>int 2 - int i\<bar> \<or> 1 < \<bar>int 2 - int ii\<bar>"
  proof (intro allI impI)
    fix i ii :: nat assume i: "i < 5" and ii: "ii < 5"
      and s: "?D ! (i * 5 + ii) = 100 \<or> i = 0 \<or> i = 5 - 1 \<or> ii = 0 \<or> ii = 5 - 1"
    from i ii have "i * 5 + ii < 25" by linarith
    then have "?D ! (i * 5 + ii) = 0" by simp
    with s have "i = 0 \<or> i = 4 \<or> ii = 0 \<or> ii = 4" by auto
    then show "1 < \<bar>int 2 - int i\<bar> \<or> 1 < \<bar>int 2 - int ii\<bar>" by auto
  qed
  have d: "?D ! (2 * 5 + 2) = 0" by simp
  from map_callback_inflation[OF run l3 l3] near have a: "?A ! 3 ! 3 = 100"
    unfolding pb Let_def by blast
  from map_callback_inflation[OF run l2 l2] far have "?A ! 2 ! 2 = ?D ! (2 * 5 + 2)"
    unfolding pb Let_def by blast
  with d have b: "?A ! 2 ! 2 = 0" by simp
  from run a b show ?thesis by blast
qed

text \<open>
  C2 as stated fails on the buffer. For the COM1 configuration (resolution 0.02, ratio 2)
  the code's buffer is 25 where rounding gives 26, and on a free 60 by 60 map cell
  \<open>(26, 26)\<close>, which lies within half-width 26 of the border cell \<open>(0, 26)\<close>, stays free.
\<close>

theorem inflation_window_counterexample:
  "pixel_buffer (2 / 100) 2 = Inr 25
   \<and> py_round (ROBOT_SIZE / (2 / 100) * 2) = 26
   \<and> map_callback 60 60 (2 / 100) 2 (replicate 3600 0)
       = Inr (inflate 60 60 25 (rows_of 60 60 (replicate 3600 0)))
   \<and> inflate 60 60 25 (rows_of 60 60 (replicate 3600 0)) ! 26 ! 26 = 0"
proof -
  let ?D = "replicate 3600 0 :: int list"
  let ?A = "inflate 60 60 25 (rows_of 60 60 ?D)"
  have a: "pixel_buffer (2 / 100) 2 = Inr 25"
    by (simp add: pixel_buffer_def py_int_def ROBOT_SIZE_def)
  have b: "py_round (ROBOT_SIZE / (2 / 100) * 2) = 26"
    by (simp add: py_round_def ROBOT_SIZE_def Let_def)
  have run: "map_callback 60 60 (2 / 100) 2 ?D = Inr ?A"
    using a by (simp add: map_callback_def err_bind_def reshape_def)
  have len: "length ?D = 60 * 60" by simp
  have wf: "wf_grid 60 60 (rows_of 60 60 ?D)" by (rule rows_of_wf[OF len])
  have l: "(26::nat) < 60" by simp
  have no: "\<not> (\<exists>i<60. \<exists>ii<60. inflation_source 60 60 (rows_of 60 60 ?D) i ii
                 \<and> in_window 60 25 i 26 \<and> in_window 60 25 ii 26)"
  proof
    assume "\<exists>i<60. \<exists>ii<60. inflation_source 60 60 (rows_of 60 60 ?D) i ii
                 \<and> in_window 60 25 i 26 \<and> in_window 60 25 ii 26"
    then obtain i ii where i: "i < 60" "ii < 60"
      and s: "inflation_source 60 60 (rows_of 60 60 ?D) i ii"
      and w: "in_window 60 25 i 26" "in_window 60 25 ii 26" by blast
    from i have "i * 60 + ii < 3600" by linarith
    then have "?D ! (i * 60 + ii) = 0" by simp
    with rows_of_nth[OF len i] have "rows_of 60 60 ?D ! i ! ii = 0" by simp
    with s have "i = 0 \<or> i = 59 \<or> ii = 0 \<or> ii = 59" by (auto simp: inflation_source_def)
    with w show False by (auto simp: in_window_def)
  qed
  have "rows_of 60 60 ?D ! 26 ! 26 = ?D ! (26 * 60 + 26)" by (rule rows_of_nth[OF len l l])
  then have raw: "rows_of 60 60 ?D ! 26 ! 26 = 0" by simp
  from cell_inflate[OF wf l l, of 25] no raw have d: "?A ! 26 ! 26 = 0" by simp
  from a b run d show ?thesis by blast
qed

text \<open>
  C5 (as amended). Applying the inflation again to an inflated grid with the same buffer
  never clears a cell: each cell is unchanged or becomes occupied, occupied cells stay
  occupied, and with a buffer of zero or less the grid is unchanged altogether.
\<close>

theorem inflate_twice:
  assumes "wf_grid H W m" and "r < H" and "c < W"
  shows "(inflate H W pb (inflate H W pb m) ! r ! c = inflate H W pb m ! r ! c
          \<or> inflate H W pb (inflate H W pb m) ! r ! c = 100)
         \<and> (inflate H W pb m ! r ! c = 100
              \<longrightarrow> inflate H W pb (inflate H W pb m) ! r ! c = 100)
         \<and> (pb \<le> 0 \<longrightarrow> inflate H W pb (inflate H W pb m) = inflate H W pb m)"
proof -
  have wf: "wf_grid H W (inflate H W pb m)" by (rule wf_grid_inflate[OF assms(1)])
  note cell = cell_inflate[OF wf assms(2,3), of pb]
  have 1: "inflate H W pb (inflate H W pb m) ! r ! c = inflate H W pb m ! r ! c
          \<or> inflate H W pb (inflate H W pb m) ! r ! c = 100"
    using cell by (simp split: if_splits)
  have 2: "inflate H W pb m ! r ! c = 100
              \<longrightarrow> inflate H W pb (inflate H W pb m) ! r ! c = 100"
    using cell by (simp split: if_splits)
  have 3: "pb \<le> 0 \<longrightarrow> inflate H W pb (inflate H W pb m) = inflate H W pb m"
    by (simp add: inflate_nonpositive_buffer)
  from 1 2 3 show ?thesis by blast
qed

theorem inflate_twice_witness:
  "wf_grid 5 5 (replicate 5 (replicate 5 0))
   \<and> inflate 5 5 1 (replicate 5 (replicate 5 0)) ! 0 ! 0 = 100
   \<and> inflate 5 5 1 (inflate 5 5 1 (replicate 5 (replicate 5 0))) ! 0 ! 0 = 100
   \<and> inflate 5 5 0 (inflate 5 5 0 (replicate 5 (replicate 5 0)))
       = inflate 5 5 0 (replicate 5 (replicate 5 0))"
proof -
  have wf: "wf_grid 5 5 (replicate 5 (replicate 5 0))" by (simp add: wf_grid_def)
  have v: "inflate 5 5 1 (replicate 5 (replicate 5 0)) ! 0 ! 0 = 100" by code_simp
  from inflate_twice[OF wf, of 0 0 1] inflate_twice[OF wf, of 0 0 0] v wf
  show ?thesis by simp
qed

text \<open>
  C5 as stated fails: on a free 5 by 5 grid with buffer 1 the cell \<open>(2, 2)\<close> is free after
  one inflation and occupied after two.
\<close>

theorem inflate_not_idempotent:
  "inflate 5 5 1 (replicate 5 (replicate 5 0)) ! 2 ! 2 = 0
   \<and> inflate 5 5 1 (inflate 5 5 1 (replicate 5 (replicate 5 0))) ! 2 ! 2 = 100"
proof -
  have a: "inflate 5 5 1 (replicate 5 (replicate 5 0)) ! 2 ! 2 = 0" by code_simp
  have b: "inflate 5 5 1 (inflate 5 5 1 (replicate 5 (replicate 5 0))) ! 2 ! 2 = 100"
    by code_simp
  from a b show ?thesis by blast
qed


section \<open>Truncation and array indexing\<close>

lemma py_int_le_zero: "py_int x \<le> 0 \<longleftrightarrow> x < 1"
  unfolding py_int_def by (auto simp: floor_le_iff ceiling_le_iff)

lemma py_int_of_int [simp]: "py_int (of_int n) = n"
  unfolding py_int_def by simp

lemma np_index_in_range: "0 \<le> i \<Longrightarrow> i < int n \<Longrightarrow> np_index n i = Inr (nat i)"
  by (simp add: np_index_def)

lemma np_index_beyond: "int n \<le> i \<Longrightarrow> np_index n i = Inl IndexError"
  by (simp add: np_index_def)

lemma np_get2_in_range:
  assumes "wf_grid H W a" "0 \<le> i" "i < int H" "0 \<le> j" "j < int W"
  shows "np_get2 a i j = Inr (a ! nat i ! nat j)"
proof -
  have "length a = H" using assms(1) by (simp add: wf_grid_def)
  moreover have "length (a ! nat i) = W"
    using assms(1,2,3) by (intro wf_grid_nth[of H W a]) simp_all
  ultimately show ?thesis
    using assms by (simp add: np_get2_def err_bind_def np_index_in_range)
qed

section \<open>Claims about the collision checkers and the motion model\<close>

text \<open>
  C10. The MDP planner's \<^verbatim>\<open>collision_checker\<close> is total and conservative at the boundary:
  for a positive resolution and a map of the declared shape it returns a boolean for every
  real \<open>(x, y)\<close>, reads the map only at an index inside the array (no wrap-around, no
  fault), and reports a collision whenever a truncated index is \<open>\<le> 0\<close> or reaches the
  extent, in particular whenever \<open>x < resolution\<close> or \<open>y < resolution\<close>.
\<close>

theorem collision_checker_DSPA_total:
  assumes "0 < resolution self"
    and "wf_grid (world_height self) (world_width self) (aug_map self)"
  shows "collision_checker_DSPA self x y =
           Inr (py_int (y / resolution self) \<le> 0
                \<or> int (world_height self) \<le> py_int (y / resolution self)
                \<or> py_int (x / resolution self) \<le> 0
                \<or> int (world_width self) \<le> py_int (x / resolution self)
                \<or> aug_map self ! nat (py_int (y / resolution self))
                     ! nat (py_int (x / resolution self)) = 100)
         \<and> (x < resolution self \<or> y < resolution self
              \<longrightarrow> collision_checker_DSPA self x y = Inr True)"
proof -
  let ?iy = "py_int (y / resolution self)" and ?ix = "py_int (x / resolution self)"
  have eq: "collision_checker_DSPA self x y =
           Inr (?iy \<le> 0 \<or> int (world_height self) \<le> ?iy \<or> ?ix \<le> 0
                \<or> int (world_width self) \<le> ?ix
                \<or> aug_map self ! nat ?iy ! nat ?ix = 100)"
  proof (cases "?iy \<le> 0 \<or> int (world_height self) \<le> ?iy \<or> ?ix \<le> 0
                \<or> int (world_width self) \<le> ?ix")
    case True
    then show ?thesis using assms(1)
      by (auto simp: collision_checker_DSPA_def Let_def)
  next
    case False
    then have "np_get2 (aug_map self) ?iy ?ix = Inr (aug_map self ! nat ?iy ! nat ?ix)"
      by (intro np_get2_in_range[OF assms(2)]) simp_all
    then show ?thesis using False assms(1)
      by (simp add: collision_checker_DSPA_def Let_def err_bind_def)
  qed
  have low: "?ix \<le> 0" if "x < resolution self"
    using that assms(1) by (simp add: py_int_le_zero)
  have low': "?iy \<le> 0" if "y < resolution self"
    using that assms(1) by (simp add: py_int_le_zero)
  from eq low low' show ?thesis by auto
qed

theorem collision_checker_DSPA_total_witness:
  "(0::real) < 1 / 20
   \<and> wf_grid 4 4 (replicate 4 (replicate 4 0))
   \<and> collision_checker_DSPA
        \<lparr>world_width = 4, world_height = 4, resolution = 1 / 20, com = False,
         aug_map = replicate 4 (replicate 4 0), goal = (1, 8)\<rparr> (3 / 25) (3 / 25) = Inr False
   \<and> collision_checker_DSPA
        \<lparr>world_width = 4, world_height = 4, resolution = 1 / 20, com = False,
         aug_map = replicate 4 (replicate 4 0), goal = (1, 8)\<rparr> (1 / 100) (3 / 25) = Inr True"
proof -
  let ?P = "\<lparr>world_width = 4, world_height = 4, resolution = 1 / 20, com = False,
         aug_map = replicate 4 (replicate 4 0), goal = (1, 8)\<rparr>"
  have res: "0 < resolution ?P" by simp
  have wf: "wf_grid (world_height ?P) (world_width ?P) (aug_map ?P)"
    by (simp add: wf_grid_def)
  have wf': "wf_grid 4 4 (replicate 4 (replicate 4 0))" by (simp add: wf_grid_def)
  from collision_checker_DSPA_total[OF res wf, of "3 / 25" "3 / 25"]
       collision_checker_DSPA_total[OF res wf, of "1 / 100" "3 / 25"] wf'
  show ?thesis by (simp add: py_int_def)
qed

section \<open>Motion model\<close>

lemma motion_steps_straight_aux:
  assumes "dx = v * cos theta / f" and "dy = v * sin theta / f"
    and "\<forall>k\<in>{1..n}. chk (x + of_nat k * dx) (y + of_nat k * dy) = Inr False"
  shows "motion_steps chk n x y theta v 0 f
         = Inr (Some (x + of_nat n * dx, y + of_nat n * dy, theta))"
  using assms(3)
proof (induction n arbitrary: x y)
  case 0
  then show ?case by simp
next
  case (Suc n)
  have first: "chk (x + dx) (y + dy) = Inr False"
    using Suc.prems[rule_format, of 1] by simp
  have rest: "\<forall>k\<in>{1..n}. chk ((x + dx) + of_nat k * dx) ((y + dy) + of_nat k * dy) = Inr False"
  proof
    fix k assume "k \<in> {1..n}"
    then have "Suc k \<in> {1..Suc n}" by simp
    from Suc.prems[rule_format, OF this]
    show "chk ((x + dx) + of_nat k * dx) ((y + dy) + of_nat k * dy) = Inr False"
      by (simp add: algebra_simps)
  qed
  have step: "motion_steps chk (Suc n) x y theta v 0 f
              = motion_steps chk n (x + dx) (y + dy) theta v 0 f"
    using first by (simp add: err_bind_def Let_def assms(1,2))
  show ?case unfolding step Suc.IH[OF rest] by (simp add: algebra_simps)
qed

lemma motion_steps_straight:
  assumes "\<forall>k\<in>{1..n}. chk (x + of_nat k * (v * cos theta / f)) (y + of_nat k * (v * sin theta / f))
             = Inr False"
  shows "motion_steps chk n x y theta v 0 f
         = Inr (Some (x + of_nat n * (v * cos theta / f), y + of_nat n * (v * sin theta / f), theta))"
  by (rule motion_steps_straight_aux[OF refl refl assms])

section \<open>Rounding to binary64\<close>

lemma py_round_error: "\<bar>of_int (py_round t) - t\<bar> \<le> 1 / 2"
proof -
  have "of_int \<lfloor>t\<rfloor> \<le> t" "t < of_int \<lfloor>t\<rfloor> + 1" by linarith+
  then show ?thesis unfolding py_round_def Let_def by (auto split: if_splits)
qed

lemma floor_log2:
  assumes "2 powi k \<le> z" and "z < 2 powi (k + 1)"
  shows "\<lfloor>log 2 z\<rfloor> = k"
proof -
  have "(0::real) < 2 powi k" by simp
  with assms(1) have z: "0 < z" by linarith
  have a: "(2::real) powr real_of_int k = 2 powi k"
    by (rule powr_real_of_int') simp_all
  have b: "(2::real) powr real_of_int (k + 1) = 2 powi (k + 1)"
    by (rule powr_real_of_int') simp_all
  have "(2::real) powr real_of_int k \<le> z \<and> z < 2 powr real_of_int (k + 1)"
    unfolding a b using assms by blast
  then show ?thesis
    using floor_log_eq_powr_iff[of z 2 k, OF z] by simp
qed

lemma floor_log2_bounds:
  assumes "0 < z"
  shows "2 powi \<lfloor>log 2 z\<rfloor> \<le> z"
proof -
  have "(2::real) powr real_of_int \<lfloor>log 2 z\<rfloor> \<le> z"
    using floor_log_eq_powr_iff[of z 2 "\<lfloor>log 2 z\<rfloor>", OF assms] by simp
  moreover have "(2::real) powr real_of_int \<lfloor>log 2 z\<rfloor> = 2 powi \<lfloor>log 2 z\<rfloor>"
    by (rule powr_real_of_int') simp_all
  ultimately show ?thesis by simp
qed

lemma double_round_0 [simp]: "double_round 0 = 0"
  by (simp add: double_round_def)

lemma double_round_eval:
  assumes "2 powi k \<le> \<bar>z\<bar>" and "\<bar>z\<bar> < 2 powi (k + 1)" and "- 1022 \<le> k"
  shows "double_round z
         = sgn z * of_int (py_round (\<bar>z\<bar> / 2 powi (k - 52))) * 2 powi (k - 52)"
proof -
  have "(0::real) < 2 powi k" by simp
  with assms(1) have "0 < \<bar>z\<bar>" by linarith
  then have z: "z \<noteq> 0" by simp
  have e: "max (\<lfloor>log 2 \<bar>z\<bar>\<rfloor> - 52) (- 1074) = k - 52"
    unfolding floor_log2[OF assms(1,2)] using assms(3) by simp
  show ?thesis unfolding double_round_def Let_def e using z by simp
qed

lemma double_round_error: "\<bar>double_round z - z\<bar> \<le> \<bar>z\<bar> / 2 ^ 53 + 2 powi (- 1075)"
proof (cases "z = 0")
  case True
  then show ?thesis by simp
next
  case False
  define k where "k = \<lfloor>log 2 \<bar>z\<bar>\<rfloor>"
  define e where "e = max (k - 52) (- 1074)"
  define p :: real where "p = 2 powi e"
  define m where "m = py_round (\<bar>z\<bar> / p)"
  have p: "0 < p" by (simp add: p_def)
  have dr: "double_round z = sgn z * of_int m * p"
    using False by (simp add: double_round_def Let_def k_def e_def p_def m_def)
  have "z = sgn z * \<bar>z\<bar>" by (simp add: sgn_mult_abs)
  then have "double_round z - z = sgn z * (of_int m * p - \<bar>z\<bar>)"
    unfolding dr by (metis mult.assoc right_diff_distrib)
  then have "\<bar>double_round z - z\<bar> = \<bar>of_int m * p - \<bar>z\<bar>\<bar>"
    using False by (simp add: abs_mult abs_sgn_eq)
  also have "of_int m * p - \<bar>z\<bar> = (of_int m - \<bar>z\<bar> / p) * p"
    using p by (simp add: field_simps)
  also have "\<bar>(of_int m - \<bar>z\<bar> / p) * p\<bar> = \<bar>of_int m - \<bar>z\<bar> / p\<bar> * p"
    using p by (simp add: abs_mult)
  also have "\<dots> \<le> 1 / 2 * p"
    using py_round_error[of "\<bar>z\<bar> / p"] p unfolding m_def by (intro mult_right_mono) simp_all
  finally have half: "\<bar>double_round z - z\<bar> \<le> p / 2" by simp
  show ?thesis
  proof (cases "- 1074 \<le> k - 52")
    case True
    then have "e = k - 52" by (simp add: e_def)
    then have "p = 2 powi k / 2 ^ 52" by (simp add: p_def power_int_diff)
    moreover have "2 powi k \<le> \<bar>z\<bar>"
      unfolding k_def using False by (intro floor_log2_bounds) simp
    ultimately have "p / 2 \<le> \<bar>z\<bar> / 2 ^ 53" by (simp add: field_simps)
    moreover have "(0::real) \<le> 2 powi (- 1075)" by simp
    ultimately show ?thesis using half by linarith
  next
    case False
    then have "e = - 1075 + 1" by (simp add: e_def)
    moreover have "(2::real) powi (- 1075 + 1) = 2 powi (- 1075) * 2"
      by (rule power_int_add_1) simp
    ultimately have "p = 2 powi (- 1075) * 2" unfolding p_def by simp
    then have "p / 2 = 2 powi (- 1075)" by simp
    moreover have "0 \<le> \<bar>z\<bar> / 2 ^ 53" by simp
    ultimately show ?thesis using half by linarith
  qed
qed

lemma accumulate_Suc_right: "accumulate (Suc n) a d = fadd (accumulate n a d) d"
  by (induction n arbitrary: a) simp_all

lemma accumulate_error_aux:
  fixes U eta B :: real
  assumes U: "0 < U" and rnd: "\<And>z. \<bar>double_round z - z\<bar> \<le> U * \<bar>z\<bar> + eta"
    and B: "\<bar>a\<bar> + real N * \<bar>d\<bar> + eta / U \<le> B"
    and n: "n \<le> N"
  shows "\<bar>accumulate n a d - (a + real n * d)\<bar> \<le> ((1 + U) ^ n - 1) * B"
  using n
proof (induction n)
  case 0
  then show ?case by simp
next
  case (Suc n)
  define A where "A = accumulate n a d"
  define E where "E = \<bar>A - (a + real n * d)\<bar>"
  from Suc have IH: "E \<le> ((1 + U) ^ n - 1) * B" by (simp add: E_def A_def)
  have E0: "0 \<le> E" by (simp add: E_def)
  have "real (Suc n) * \<bar>d\<bar> \<le> real N * \<bar>d\<bar>"
    using Suc.prems by (intro mult_right_mono) simp_all
  with B have M: "\<bar>a\<bar> + real (Suc n) * \<bar>d\<bar> + eta / U \<le> B" by linarith
  have "\<bar>A + d\<bar> = \<bar>(A - (a + real n * d)) + (a + real (Suc n) * d)\<bar>"
    by (simp add: algebra_simps)
  also have "\<dots> \<le> E + \<bar>a + real (Suc n) * d\<bar>" unfolding E_def by (rule abs_triangle_ineq)
  also have "\<bar>a + real (Suc n) * d\<bar> \<le> \<bar>a\<bar> + real (Suc n) * \<bar>d\<bar>"
    using abs_triangle_ineq[of a "real (Suc n) * d"] by (simp add: abs_mult)
  finally have Ad: "\<bar>A + d\<bar> \<le> E + (\<bar>a\<bar> + real (Suc n) * \<bar>d\<bar>)" by simp
  have "accumulate (Suc n) a d - (a + real (Suc n) * d)
        = (double_round (A + d) - (A + d)) + (A - (a + real n * d))"
    unfolding accumulate_Suc_right fadd_def A_def by (simp add: algebra_simps)
  then have "\<bar>accumulate (Suc n) a d - (a + real (Suc n) * d)\<bar>
        \<le> \<bar>double_round (A + d) - (A + d)\<bar> + E"
    unfolding E_def using abs_triangle_ineq by simp
  also have "\<dots> \<le> U * \<bar>A + d\<bar> + eta + E" using rnd[of "A + d"] by simp
  also have "\<dots> \<le> U * (E + (\<bar>a\<bar> + real (Suc n) * \<bar>d\<bar>)) + eta + E"
    using mult_left_mono[OF Ad, of U] U by simp
  also have "\<dots> = (1 + U) * E + U * (\<bar>a\<bar> + real (Suc n) * \<bar>d\<bar> + eta / U)"
    using U by (simp add: field_simps)
  also have "\<dots> \<le> (1 + U) * (((1 + U) ^ n - 1) * B) + U * B"
  proof -
    have "(1 + U) * E \<le> (1 + U) * (((1 + U) ^ n - 1) * B)"
      using IH U by (intro mult_left_mono) simp_all
    moreover have "U * (\<bar>a\<bar> + real (Suc n) * \<bar>d\<bar> + eta / U) \<le> U * B"
      using M U by (intro mult_left_mono) simp_all
    ultimately show ?thesis by linarith
  qed
  also have "\<dots> = ((1 + U) ^ Suc n - 1) * B" by (simp add: algebra_simps)
  finally show ?case .
qed

lemma accumulate_error_5:
  "\<bar>accumulate 5 a d - (a + 5 * d)\<bar> \<le> (\<bar>a\<bar> + 5 * \<bar>d\<bar>) / 2 ^ 50 + 2 powi (- 1072)"
proof -
  define U :: real where "U = 1 / 2 ^ 53"
  define eta :: real where "eta = 2 powi (- 1075)"
  define B where "B = \<bar>a\<bar> + real 5 * \<bar>d\<bar> + eta / U"
  have U: "0 < U" by (simp add: U_def)
  have rnd: "\<bar>double_round z - z\<bar> \<le> U * \<bar>z\<bar> + eta" for z
    using double_round_error[of z] by (simp add: U_def eta_def)
  have B0: "0 \<le> B" unfolding B_def eta_def using U by simp
  have "\<bar>accumulate 5 a d - (a + real 5 * d)\<bar> \<le> ((1 + U) ^ 5 - 1) * B"
    by (rule accumulate_error_aux[where N = 5 and eta = eta, OF U rnd]) (simp_all add: B_def)
  moreover have "(1 + U) ^ 5 - 1 \<le> 8 * U" unfolding U_def by (simp add: power_divide)
  then have "((1 + U) ^ 5 - 1) * B \<le> 8 * U * B" using B0 by (rule mult_right_mono)
  moreover have "8 * U * B = (\<bar>a\<bar> + 5 * \<bar>d\<bar>) / 2 ^ 50 + 8 * eta"
    unfolding B_def U_def by (simp add: field_simps)
  moreover have "8 * eta = 2 powi (- 1072)"
  proof -
    have "(2::real) powi (- 1075 + 3) = 2 powi (- 1075) * 2 powi 3"
      by (rule power_int_add) simp
    then show ?thesis by (simp add: eta_def)
  qed
  ultimately show ?thesis by simp
qed

lemma motion_steps_double_straight:
  assumes "double_round theta = theta"
    and "dx = fdiv (fmul v (np_cos theta)) f" and "dy = fdiv (fmul v (np_sin theta)) f"
    and "\<forall>k\<in>{1..n}. chk (accumulate k x dx) (accumulate k y dy) = Inr False"
  shows "motion_steps_double np_cos np_sin chk n x y theta v 0 f
         = Inr (Some (accumulate n x dx, accumulate n y dy, theta))"
  using assms(4)
proof (induction n arbitrary: x y)
  case 0
  then show ?case by simp
next
  case (Suc n)
  have first: "chk (fadd x dx) (fadd y dy) = Inr False"
    using Suc.prems[rule_format, of 1] by simp
  have rest: "\<forall>k\<in>{1..n}. chk (accumulate k (fadd x dx) dx) (accumulate k (fadd y dy) dy)
                = Inr False"
  proof
    fix k assume "k \<in> {1..n}"
    then have "Suc k \<in> {1..Suc n}" by simp
    from Suc.prems[rule_format, OF this]
    show "chk (accumulate k (fadd x dx) dx) (accumulate k (fadd y dy) dy) = Inr False"
      by simp
  qed
  have th: "fadd theta (fdiv 0 f) = theta"
    using assms(1) by (simp add: fadd_def fdiv_def)
  have step: "motion_steps_double np_cos np_sin chk (Suc n) x y theta v 0 f
              = motion_steps_double np_cos np_sin chk n (fadd x dx) (fadd y dy) theta v 0 f"
    using first by (simp add: err_bind_def Let_def assms(2,3) th)
  show ?case unfolding step Suc.IH[OF rest] by simp
qed

lemma py_round_numeral [simp]: "py_round (numeral n) = numeral n"
  by (simp add: py_round_def Let_def)

lemma double_round_5: "double_round 5 = 5"
  by (subst double_round_eval[where k = 2]) simp_all

lemma double_round_1: "double_round 1 = 1"
  by (subst double_round_eval[where k = 0]) simp_all

lemma double_tenth: "double_round (1 / 10) = 3602879701896397 / 36028797018963968"
  by (subst double_round_eval[where k = "- 4"]) (simp_all add: py_round_def Let_def)

text \<open>
  C7 (as amended). Let \<open>\<omega> = 0\<close>, \<open>dt = 0.5\<close>, \<open>frequency = 10\<close>, and let \<open>\<theta>\<close> be a binary64
  number. If the collision checker reports no collision at the five sub-step positions,
  \<^verbatim>\<open>motion_predict\<close> returns \<open>\<theta>\<close> unchanged and the position reached by five rounded additions
  of the sub-step displacement \<open>dx = (v * cos \<theta>) / 10\<close>, \<open>dy = (v * sin \<theta>) / 10\<close> (each
  operation rounded). Each coordinate differs from \<open>x + 5 dx\<close>, \<open>y + 5 dy\<close> by at most
  \<open>(\<bar>x\<bar> + 5 \<bar>dx\<bar>) / 2\<^sup>5\<^sup>0 + 2\<^sup>-\<^sup>1\<^sup>0\<^sup>7\<^sup>2\<close>: the position advances by \<open>v dt\<close> along the heading up
  to rounding, not exactly.
\<close>

theorem motion_predict_straight_line:
  assumes "double_round theta = theta"
    and "dx = fdiv (fmul v (np_cos theta)) 10" and "dy = fdiv (fmul v (np_sin theta)) 10"
    and "\<forall>k\<in>{1..5}. chk (accumulate k x dx) (accumulate k y dy) = Inr False"
  shows "motion_predict_double np_cos np_sin chk x y theta v 0 (1 / 2) 10
           = Inr (Some (accumulate 5 x dx, accumulate 5 y dy, theta))
         \<and> \<bar>accumulate 5 x dx - (x + 5 * dx)\<bar> \<le> (\<bar>x\<bar> + 5 * \<bar>dx\<bar>) / 2 ^ 50 + 2 powi (- 1072)
         \<and> \<bar>accumulate 5 y dy - (y + 5 * dy)\<bar> \<le> (\<bar>y\<bar> + 5 * \<bar>dy\<bar>) / 2 ^ 50 + 2 powi (- 1072)"
proof -
  have n: "nat (py_int (fmul (1 / 2) 10)) = 5"
    by (simp add: fmul_def double_round_5 py_int_def)
  have "motion_predict_double np_cos np_sin chk x y theta v 0 (1 / 2) 10
           = Inr (Some (accumulate 5 x dx, accumulate 5 y dy, theta))"
    unfolding motion_predict_double_def n
    by (rule motion_steps_double_straight
          [where np_cos = np_cos and np_sin = np_sin and chk = chk, OF assms])
  with accumulate_error_5[of x dx] accumulate_error_5[of y dy] show ?thesis by blast
qed

lemma example_dx:
  "fdiv (fmul 1 (cos_rounded 0)) 10 = 3602879701896397 / 36028797018963968"
  by (simp add: fdiv_def fmul_def cos_rounded_def double_round_1 double_tenth)

lemma example_dy: "fdiv (fmul 1 (sin_rounded 0)) 10 = 0"
  by (simp add: fdiv_def fmul_def sin_rounded_def)

lemma example_x1:
  "fadd 5 (3602879701896397 / 36028797018963968) = 2871044762448691 / 562949953421312"
  unfolding fadd_def
  by (subst double_round_eval[where k = 2]) (simp_all add: py_round_def Let_def)

lemma example_x2:
  "fadd (2871044762448691 / 562949953421312) (3602879701896397 / 36028797018963968)
   = 1463669878895411 / 281474976710656"
  unfolding fadd_def
  by (subst double_round_eval[where k = 2]) (simp_all add: py_round_def Let_def)

lemma example_x3:
  "fadd (1463669878895411 / 281474976710656) (3602879701896397 / 36028797018963968)
   = 2983634753132953 / 562949953421312"
  unfolding fadd_def
  by (subst double_round_eval[where k = 2]) (simp_all add: py_round_def Let_def)

lemma example_x4:
  "fadd (2983634753132953 / 562949953421312) (3602879701896397 / 36028797018963968)
   = 759982437118771 / 140737488355328"
  unfolding fadd_def
  by (subst double_round_eval[where k = 2]) (simp_all add: py_round_def Let_def)

lemma example_x5:
  "fadd (759982437118771 / 140737488355328) (3602879701896397 / 36028797018963968)
   = 3096224743817215 / 562949953421312"
  unfolding fadd_def
  by (subst double_round_eval[where k = 2]) (simp_all add: py_round_def Let_def)

lemma example_y: "fadd 5 0 = 5"
  by (simp add: fadd_def double_round_5)

lemma example_col1:
  "py_int (fdiv (2871044762448691 / 562949953421312)
             (3602879701896397 / 72057594037927936)) = 101"
  unfolding fdiv_def
  by (subst double_round_eval[where k = 6]) (simp_all add: py_round_def py_int_def Let_def)

lemma example_col2:
  "py_int (fdiv (1463669878895411 / 281474976710656)
             (3602879701896397 / 72057594037927936)) = 103"
  unfolding fdiv_def
  by (subst double_round_eval[where k = 6]) (simp_all add: py_round_def py_int_def Let_def)

lemma example_col3:
  "py_int (fdiv (2983634753132953 / 562949953421312)
             (3602879701896397 / 72057594037927936)) = 105"
  unfolding fdiv_def
  by (subst double_round_eval[where k = 6]) (simp_all add: py_round_def py_int_def Let_def)

lemma example_col4:
  "py_int (fdiv (759982437118771 / 140737488355328)
             (3602879701896397 / 72057594037927936)) = 107"
  unfolding fdiv_def
  by (subst double_round_eval[where k = 6]) (simp_all add: py_round_def py_int_def Let_def)

lemma example_col5:
  "py_int (fdiv (3096224743817215 / 562949953421312)
             (3602879701896397 / 72057594037927936)) = 109"
  unfolding fdiv_def
  by (subst double_round_eval[where k = 6]) (simp_all add: py_round_def py_int_def Let_def)

lemma example_row: "py_int (fdiv 5 (3602879701896397 / 72057594037927936)) = 100"
  unfolding fdiv_def
  by (subst double_round_eval[where k = 6]) (simp_all add: py_round_def py_int_def Let_def)

lemma free_map_cell:
  assumes "0 \<le> c" and "c < 200"
  shows "np_get2 (replicate 200 (replicate 200 0)) 100 c = Inr 0"
proof -
  have wf: "wf_grid 200 200 (replicate 200 (replicate 200 0))" by (simp add: wf_grid_def)
  have "np_get2 (replicate 200 (replicate 200 0)) 100 c
          = Inr (replicate 200 (replicate 200 0) ! nat 100 ! nat c)"
    using assms by (intro np_get2_in_range[OF wf]) simp_all
  moreover have "nat c < 200" using assms by simp
  ultimately show ?thesis by simp
qed

lemma example_free:
  "collision_checker_CSDA_double
     \<lparr>world_width = 200, world_height = 200,
      resolution = 3602879701896397 / 72057594037927936, com = False,
      aug_map = replicate 200 (replicate 200 0), goal = (1, 8)\<rparr>
     (2871044762448691 / 562949953421312) 5 = Inr False"
  "collision_checker_CSDA_double
     \<lparr>world_width = 200, world_height = 200,
      resolution = 3602879701896397 / 72057594037927936, com = False,
      aug_map = replicate 200 (replicate 200 0), goal = (1, 8)\<rparr>
     (1463669878895411 / 281474976710656) 5 = Inr False"
  "collision_checker_CSDA_double
     \<lparr>world_width = 200, world_height = 200,
      resolution = 3602879701896397 / 72057594037927936, com = False,
      aug_map = replicate 200 (replicate 200 0), goal = (1, 8)\<rparr>
     (2983634753132953 / 562949953421312) 5 = Inr False"
  "collision_checker_CSDA_double
     \<lparr>world_width = 200, world_height = 200,
      resolution = 3602879701896397 / 72057594037927936, com = False,
      aug_map = replicate 200 (replicate 200 0), goal = (1, 8)\<rparr>
     (759982437118771 / 140737488355328) 5 = Inr False"
  "collision_checker_CSDA_double
     \<lparr>world_width = 200, world_height = 200,
      resolution = 3602879701896397 / 72057594037927936, com = False,
      aug_map = replicate 200 (replicate 200 0), goal = (1, 8)\<rparr>
     (3096224743817215 / 562949953421312) 5 = Inr False"
  unfolding collision_checker_CSDA_double_def
  by (simp_all add: example_row example_col1 example_col2 example_col3 example_col4
        example_col5 free_map_cell err_bind_def)

lemma example_positions:
  "accumulate 1 5 (3602879701896397 / 36028797018963968) = 2871044762448691 / 562949953421312"
  "accumulate 2 5 (3602879701896397 / 36028797018963968) = 1463669878895411 / 281474976710656"
  "accumulate 3 5 (3602879701896397 / 36028797018963968) = 2983634753132953 / 562949953421312"
  "accumulate 4 5 (3602879701896397 / 36028797018963968) = 759982437118771 / 140737488355328"
  "accumulate 5 5 (3602879701896397 / 36028797018963968) = 3096224743817215 / 562949953421312"
  by (simp_all add: eval_nat_numeral example_x1 example_x2 example_x3 example_x4 example_x5)

lemma example_heights: "accumulate k 5 0 = 5"
  by (induction k) (simp_all add: example_y)

lemma example_all_free:
  "\<forall>k\<in>{1..5}.
     collision_checker_CSDA_double
       \<lparr>world_width = 200, world_height = 200,
        resolution = 3602879701896397 / 72057594037927936, com = False,
        aug_map = replicate 200 (replicate 200 0), goal = (1, 8)\<rparr>
       (accumulate k 5 (3602879701896397 / 36028797018963968)) (accumulate k 5 0) = Inr False"
proof
  fix k :: nat assume "k \<in> {1..5}"
  then have "k = 1 \<or> k = 2 \<or> k = 3 \<or> k = 4 \<or> k = 5" by auto
  then show "collision_checker_CSDA_double
       \<lparr>world_width = 200, world_height = 200,
        resolution = 3602879701896397 / 72057594037927936, com = False,
        aug_map = replicate 200 (replicate 200 0), goal = (1, 8)\<rparr>
       (accumulate k 5 (3602879701896397 / 36028797018963968)) (accumulate k 5 0) = Inr False"
    unfolding example_heights
    by (elim disjE) (simp_all only: example_positions example_free)
qed

lemma example_run:
  "motion_predict_CSDA_double cos_rounded sin_rounded
     \<lparr>world_width = 200, world_height = 200,
      resolution = 3602879701896397 / 72057594037927936, com = False,
      aug_map = replicate 200 (replicate 200 0), goal = (1, 8)\<rparr> 5 5 0 1 0
   = Inr (Some (3096224743817215 / 562949953421312, 5, 0))"
proof -
  have n: "nat (py_int (fmul (1 / 2) 10)) = 5"
    by (simp add: fmul_def double_round_5 py_int_def)
  have z: "double_round 0 = 0" by simp
  from motion_steps_double_straight
         [where np_cos = cos_rounded and np_sin = sin_rounded,
          OF z example_dx[symmetric] example_dy[symmetric] example_all_free]
  show ?thesis
    unfolding motion_predict_CSDA_double_def motion_predict_double_def n
    by (simp only: example_positions example_heights)
qed

theorem motion_predict_straight_line_witness:
  "double_round 0 = 0
   \<and> motion_predict_double cos_rounded sin_rounded
       (collision_checker_CSDA_double
          \<lparr>world_width = 200, world_height = 200,
           resolution = 3602879701896397 / 72057594037927936, com = False,
           aug_map = replicate 200 (replicate 200 0), goal = (1, 8)\<rparr>)
       5 5 0 1 0 (1 / 2) 10
     = Inr (Some (3096224743817215 / 562949953421312, 5, 0))
   \<and> \<bar>3096224743817215 / 562949953421312 - (5 + 5 * (3602879701896397 / 36028797018963968))\<bar>
       \<le> (\<bar>5 :: real\<bar> + 5 * \<bar>3602879701896397 / 36028797018963968\<bar>) / 2 ^ 50
          + 2 powi (- 1072)"
proof -
  have z: "double_round 0 = 0" by simp
  note run = motion_predict_straight_line
         [where np_cos = cos_rounded and np_sin = sin_rounded,
          OF z example_dx[symmetric] example_dy[symmetric] example_all_free,
          unfolded example_positions example_heights]
  show ?thesis
    by (intro conjI) (rule z, rule conjunct1[OF run], rule conjunct1[OF conjunct2[OF run]])
qed

text \<open>
  C7 as stated fails: \<^verbatim>\<open>motion_predict(5, 5, 0, 1, 0)\<close> on a free 200 by 200 map at resolution
  0.05 tests the columns 101, 103, 105, 107, 109 of row 100 and returns
  \<open>x = 5.499999999999998\<close>, which is \<open>11/2 - 2\<^sup>-\<^sup>4\<^sup>9\<close> and not \<open>x + v dt cos \<theta> = 11/2\<close>.
\<close>

theorem motion_predict_not_exact:
  "motion_predict_CSDA_double cos_rounded sin_rounded
     \<lparr>world_width = 200, world_height = 200,
      resolution = 3602879701896397 / 72057594037927936, com = False,
      aug_map = replicate 200 (replicate 200 0), goal = (1, 8)\<rparr> 5 5 0 1 0
   = Inr (Some (3096224743817215 / 562949953421312, 5, 0))
   \<and> (3096224743817215 / 562949953421312 :: real) \<noteq> 5 + 1 * (1 / 2) * cos 0"
  using example_run by simp

text \<open>
  C1. Out-of-bounds coordinates must be reported as collisions. The search planner's
  checker does not do so: on the default 200 by 200 map at resolution 0.05, from the pose
  \<open>(9.95, 5, 0)\<close> with \<open>v = 1\<close>, \<open>\<omega> = 0\<close> the first sub-step reaches \<open>x = 10.05\<close>, column
  201, and the array access faults; the MDP planner's checker reports COLLISION there.
\<close>

theorem motion_predict_CSDA_index_fault:
  "motion_predict_CSDA
     \<lparr>world_width = 200, world_height = 200, resolution = 1 / 20, com = False,
      aug_map = inflate 200 200 10 (replicate 200 (replicate 200 0)), goal = (1, 8)\<rparr>
     (199 / 20) 5 0 1 0 = Inl IndexError
   \<and> motion_predict_DSPA
     \<lparr>world_width = 200, world_height = 200, resolution = 1 / 20, com = False,
      aug_map = inflate 200 200 10 (replicate 200 (replicate 200 0)), goal = (1, 8)\<rparr>
     (199 / 20) 5 0 1 0 = Inr None"
proof -
  let ?A = "inflate 200 200 10 (replicate 200 (replicate 200 0))"
  let ?P = "\<lparr>world_width = 200, world_height = 200, resolution = 1 / 20, com = False,
      aug_map = ?A, goal = (1, 8)\<rparr>"
  have wf: "wf_grid 200 200 ?A"
    by (rule wf_grid_inflate) (simp add: wf_grid_def)
  have len: "length ?A = 200" using wf by (simp add: wf_grid_def)
  have row: "length (?A ! 100) = 200" by (rule wf_grid_nth[OF wf]) simp
  have n: "nat (py_int (1 / 2 * 10)) = Suc 4" by (simp add: py_int_def)
  have ix: "py_int (201 / 20 / (1 / 20)) = 201" by (simp add: py_int_def)
  have iy: "py_int (5 / (1 / 20)) = 100" by (simp add: py_int_def)
  have get: "np_get2 ?A 100 201 = Inl IndexError"
    using len row by (simp add: np_get2_def err_bind_def np_index_def)
  have a: "collision_checker_CSDA ?P (201 / 20) 5 = Inl IndexError"
    using ix iy get by (simp add: collision_checker_CSDA_def err_bind_def)
  have b: "collision_checker_DSPA ?P (201 / 20) 5 = Inr True"
    using ix iy by (simp add: collision_checker_DSPA_def Let_def)
  have 1: "motion_predict_CSDA ?P (199 / 20) 5 0 1 0 = Inl IndexError"
    unfolding motion_predict_CSDA_def motion_predict_def n motion_steps.simps using a
    by (simp add: err_bind_def Let_def)
  have 2: "motion_predict_DSPA ?P (199 / 20) 5 0 1 0 = Inr None"
    unfolding motion_predict_DSPA_def motion_predict_def n motion_steps.simps using b
    by (simp add: err_bind_def Let_def)
  from 1 2 show ?thesis by blast
qed

section \<open>Claims about the policy table serialisation\<close>

lemma format_key_example: "format_key (1, 2, 0) = ''1,2,0''"
  by (simp add: format_key_def str_int_def digit_char_def str_nat.simps)

text \<open>
  C3. A policy table written by \<^verbatim>\<open>dump_action_table\<close> and reloaded must answer the
  executor's lookups as the original does. It does not: the table of \<^verbatim>\<open>generate_plan\<close> has
  string keys, the dump joins the characters of each key with commas, and the key
  \<open>1,2,0\<close> is stored as \<open>1,,,2,,,0\<close>; the executor's lookup of state \<open>(1, 2, 0)\<close> succeeds on
  the original table and raises \<^verbatim>\<open>KeyError\<close> on the reloaded one.
\<close>

theorem dump_action_table_breaks_lookup:
  "lookup_action [(format_key (1, 2, 0), Some (1, 0))] (1, 2, 0) = Inr (Some (1, 0))
   \<and> dump_action_table [(format_key (1, 2, 0), Some (1, 0))] = [(''1,,,2,,,0'', Some (1, 0))]
   \<and> lookup_action (json_reload (dump_action_table [(format_key (1, 2, 0), Some (1, 0))])) (1, 2, 0)
       = Inl KeyError"
  by (simp add: lookup_action_def dump_action_table_def json_reload_def dump_key_def format_key_example)

section \<open>Search expansion\<close>

lemma expand_pushed_shape:
  assumes "expand self visited node actions = Inr pushed" and "n \<in> set pushed"
    and "node_state node = (x, y, theta)"
  shows "\<exists>a\<in>set actions. \<exists>nx ny nt.
           motion_predict_CSDA self x y theta (fst a) (snd a) = Inr (Some (nx, ny, nt))
           \<and> n = Node (d_from_goal self nx ny + of_int (node_g node) + 1) (node_g node + 1)
                   (nx, ny, nt) (Some a) (Some node)"
  using assms(1,2)
proof (induction actions arbitrary: pushed)
  case Nil
  then show ?case by simp
next
  case (Cons a actions)
  from Cons.prems(1) obtain p rest where
    p: "expand_action self visited node a = Inr p"
    and rest: "expand self visited node actions = Inr rest"
    and pushed: "pushed = (case p of None \<Rightarrow> rest | Some m \<Rightarrow> m # rest)"
    by (auto simp: err_bind_def split: sum.splits)
  show ?case
  proof (cases "n \<in> set rest")
    case True
    from Cons.IH[OF rest True] show ?thesis by auto
  next
    case False
    with Cons.prems(2) pushed have pn: "p = Some n"
      by (cases p) auto
    from p[unfolded pn] assms(3)
    have "\<exists>nx ny nt.
           motion_predict_CSDA self x y theta (fst a) (snd a) = Inr (Some (nx, ny, nt))
           \<and> n = Node (d_from_goal self nx ny + of_int (node_g node) + 1) (node_g node + 1)
                   (nx, ny, nt) (Some a) (Some node)"
      by (auto simp: expand_action_def err_bind_def Let_def
               split: sum.splits option.splits if_splits)
    then show ?thesis by auto
  qed
qed

text \<open>
  C4 (as amended). For a popped node that fails the goal test: if its discretized state is
  already visited with a value not above the node's \<open>f\<close>, the iteration pushes nothing and
  leaves the visited map alone; otherwise the visited entry of the popped node's own
  discretized state is set to the node's \<open>f\<close> (the map is written at pop time only, never
  for a successor), and every node pushed comes from an action whose \<^verbatim>\<open>motion_predict\<close> result
  is not COLLISION and is \<open>(d_from_goal(next) + g + 1, g + 1, next, action, node)\<close>.
\<close>

theorem search_iteration_by_design:
  assumes "node_state node = (x, y, theta)"
    and "\<not> check_goal self x y"
    and "search_iteration self actions visited node = Inr res"
  shows "(if \<exists>old. visited (continuous_to_resolution self (x, y, theta)) = Some old
                  \<and> old \<le> node_f node
          then res = Skipped
          else \<exists>pushed.
                 res = Expanded (visited(continuous_to_resolution self (x, y, theta) \<mapsto> node_f node))
                         pushed
                 \<and> (\<forall>n\<in>set pushed. \<exists>a\<in>set actions. \<exists>nx ny nt.
                       motion_predict_CSDA self x y theta (fst a) (snd a)
                         = Inr (Some (nx, ny, nt))
                       \<and> n = Node (d_from_goal self nx ny + of_int (node_g node) + 1)
                               (node_g node + 1) (nx, ny, nt) (Some a) (Some node)))"
proof (cases "\<exists>old. visited (continuous_to_resolution self (x, y, theta)) = Some old
                  \<and> old \<le> node_f node")
  case True
  then show ?thesis using assms
    by (auto simp: search_iteration_def Let_def)
next
  case False
  let ?v = "visited(continuous_to_resolution self (x, y, theta) \<mapsto> node_f node)"
  from False have nt: "\<not> (case visited (continuous_to_resolution self (x, y, theta)) of
                    None \<Rightarrow> False | Some old \<Rightarrow> old \<le> node_f node)"
    by (auto split: option.splits)
  from assms nt obtain pushed where
    ex: "expand self ?v node actions = Inr pushed" and res: "res = Expanded ?v pushed"
    by (auto simp: search_iteration_def Let_def err_bind_def split: sum.splits)
  from expand_pushed_shape[OF ex _ assms(1)] res False show ?thesis by auto
qed

lemma collision_checker_CSDA_in_range:
  assumes "0 < resolution self"
    and "wf_grid (world_height self) (world_width self) (aug_map self)"
    and "0 \<le> x" "x < of_nat (world_width self) * resolution self"
    and "0 \<le> y" "y < of_nat (world_height self) * resolution self"
  shows "collision_checker_CSDA self x y
         = Inr (aug_map self ! nat (py_int (y / resolution self))
                  ! nat (py_int (x / resolution self)) = 100)"
proof -
  let ?iy = "py_int (y / resolution self)" and ?ix = "py_int (x / resolution self)"
  have x: "0 \<le> x / resolution self" "x / resolution self < of_nat (world_width self)"
    using assms(1,3,4) by (simp_all add: pos_divide_less_eq)
  have y: "0 \<le> y / resolution self" "y / resolution self < of_nat (world_height self)"
    using assms(1,5,6) by (simp_all add: pos_divide_less_eq)
  have ix: "0 \<le> ?ix" "?ix < int (world_width self)"
    using x by (simp_all add: py_int_def floor_less_iff)
  have iy: "0 \<le> ?iy" "?iy < int (world_height self)"
    using y by (simp_all add: py_int_def floor_less_iff)
  from np_get2_in_range[OF assms(2) iy ix] assms(1) show ?thesis
    by (simp add: collision_checker_CSDA_def err_bind_def)
qed

lemma d_from_goal_same_y: "snd (goal self) = py \<Longrightarrow> d_from_goal self px py = \<bar>px - fst (goal self)\<bar>"
  by (simp add: d_from_goal_def)

lemma free_world_step:
  fixes g :: "real \<times> real"
  assumes "0 \<le> x" "x < 9"
  shows "motion_predict_CSDA
           \<lparr>world_width = 200, world_height = 200, resolution = 1 / 20, com = False,
            aug_map = replicate 200 (replicate 200 0), goal = g\<rparr> x 5 0 1 0
         = Inr (Some (x + 1 / 2, 5, 0))"
proof -
  let ?P = "\<lparr>world_width = 200, world_height = 200, resolution = 1 / 20, com = False,
            aug_map = replicate 200 (replicate 200 0), goal = g\<rparr>"
  have wf: "wf_grid (world_height ?P) (world_width ?P) (aug_map ?P)"
    by (simp add: wf_grid_def)
  have res: "0 < resolution ?P" by simp
  have free: "collision_checker_CSDA ?P x' 5 = Inr False" if "0 \<le> x'" "x' < 10" for x'
  proof -
    have *: "collision_checker_CSDA ?P x' 5
           = Inr (aug_map ?P ! nat (py_int (5 / resolution ?P))
                    ! nat (py_int (x' / resolution ?P)) = 100)"
      using that by (intro collision_checker_CSDA_in_range[OF res wf]) simp_all
    have "0 \<le> x' * 20" "x' * 20 < 200" using that by simp_all
    then have "\<lfloor>x' * 20\<rfloor> < 200" by (simp add: floor_less_iff)
    then have "nat \<lfloor>x' * 20\<rfloor> < 200" by linarith
    then have "nat (py_int (x' / (1 / 20))) < 200"
      using \<open>0 \<le> x' * 20\<close> by (simp add: py_int_def)
    moreover have "nat (py_int (5 / (1 / 20))) = 100" by (simp add: py_int_def)
    ultimately show ?thesis unfolding * by simp
  qed
  have "\<forall>k\<in>{1..5::nat}. collision_checker_CSDA ?P (x + of_nat k * (1 * cos 0 / 10))
           (5 + of_nat k * (1 * sin 0 / 10)) = Inr False"
  proof
    fix k :: nat assume "k \<in> {1..5}"
    then have "0 \<le> x + real k * (1 / 10)" "x + real k * (1 / 10) < 10"
      using assms by simp_all
    from free[OF this] show "collision_checker_CSDA ?P (x + of_nat k * (1 * cos 0 / 10))
           (5 + of_nat k * (1 * sin 0 / 10)) = Inr False" by simp
  qed
  from motion_steps_straight[OF this] show ?thesis
    unfolding motion_predict_CSDA_def motion_predict_def by (simp add: py_int_def)
qed

lemma round_partial_start: "py_round (41 / 8 / (1 / 10)) = 51"
  by (simp add: py_round_def Let_def)

lemma round_partial_next: "py_round (45 / 8 / (1 / 10)) = 56"
  by (simp add: py_round_def Let_def)

lemma round_partial_50: "py_round (5 / (1 / 10)) = 50"
  by (simp add: py_round_def Let_def)

lemma py_round_0 [simp]: "py_round 0 = 0"
  by (simp add: py_round_def Let_def)

lemma key_start:
  "continuous_to_resolution
     \<lparr>world_width = 200, world_height = 200, resolution = 1 / 20, com = False,
      aug_map = a, goal = g\<rparr> (41 / 8, 5, 0) = (51 / 10, 5, 0)"
  using round_partial_start round_partial_50
  by (simp add: continuous_to_resolution_def round_partial_def search_resolution_def)

lemma key_next:
  "continuous_to_resolution
     \<lparr>world_width = 200, world_height = 200, resolution = 1 / 20, com = False,
      aug_map = a, goal = g\<rparr> (45 / 8, 5, 0) = (28 / 5, 5, 0)"
  using round_partial_next round_partial_50
  by (simp add: continuous_to_resolution_def round_partial_def search_resolution_def)

lemma search_iteration_example:
  assumes "v (51 / 10, 5, 0) = None"
    and "v (45 / 8, 5, 0) = None"
  shows "search_iteration
     \<lparr>world_width = 200, world_height = 200, resolution = 1 / 20, com = False,
      aug_map = replicate 200 (replicate 200 0), goal = (61 / 8, 5)\<rparr>
     [(1, 0)] v (Node (5 / 2) 0 (41 / 8, 5, 0) None None)
   = Inr (Expanded (v((51 / 10, 5, 0) \<mapsto> 5 / 2))
       [Node 3 1 (45 / 8, 5, 0) (Some (1, 0))
          (Some (Node (5 / 2) 0 (41 / 8, 5, 0) None None))])"
proof -
  let ?P = "\<lparr>world_width = 200, world_height = 200, resolution = 1 / 20, com = False,
      aug_map = replicate 200 (replicate 200 0), goal = (61 / 8, 5)\<rparr>"
  have g: "\<not> check_goal ?P (41 / 8) 5"
    by (simp add: check_goal_def d_from_goal_same_y)
  have m: "motion_predict_CSDA ?P (41 / 8) 5 0 1 0 = Inr (Some (45 / 8, 5, 0))"
    using free_world_step[of "41 / 8" "(61 / 8, 5)"] by simp
  have d: "d_from_goal ?P (45 / 8) 5 = 2"
    by (simp add: d_from_goal_same_y)
  have ne: "(45 / 8, 5, 0) \<noteq> ((51 / 10, 5, 0) :: pose)" by simp
  show ?thesis
    using g m d assms ne
    by (simp add: search_iteration_def key_start Let_def err_bind_def expand_action_def)
qed

theorem search_iteration_by_design_witness:
  "node_state (Node (5 / 2) 0 (41 / 8, 5, 0) None None) = (41 / 8, 5, 0)
   \<and> \<not> check_goal
     \<lparr>world_width = 200, world_height = 200, resolution = 1 / 20, com = False,
      aug_map = replicate 200 (replicate 200 0), goal = (61 / 8, 5)\<rparr> (41 / 8) 5
   \<and> search_iteration
     \<lparr>world_width = 200, world_height = 200, resolution = 1 / 20, com = False,
      aug_map = replicate 200 (replicate 200 0), goal = (61 / 8, 5)\<rparr>
     [(1, 0)] Map.empty (Node (5 / 2) 0 (41 / 8, 5, 0) None None)
   = Inr (Expanded [(51 / 10, 5, 0) \<mapsto> 5 / 2]
       [Node 3 1 (45 / 8, 5, 0) (Some (1, 0))
          (Some (Node (5 / 2) 0 (41 / 8, 5, 0) None None))])
   \<and> motion_predict_CSDA
     \<lparr>world_width = 200, world_height = 200, resolution = 1 / 20, com = False,
      aug_map = replicate 200 (replicate 200 0), goal = (61 / 8, 5)\<rparr>
     (41 / 8) 5 0 1 0 = Inr (Some (45 / 8, 5, 0))"
proof -
  let ?P = "\<lparr>world_width = 200, world_height = 200, resolution = 1 / 20, com = False,
      aug_map = replicate 200 (replicate 200 0), goal = (61 / 8, 5)\<rparr>"
  let ?N = "Node (5 / 2) 0 (41 / 8, 5, 0) None None"
  have st: "node_state ?N = (41 / 8, 5, 0)" by simp
  have g: "\<not> check_goal ?P (41 / 8) 5"
    by (simp add: check_goal_def d_from_goal_same_y)
  have it: "search_iteration ?P [(1, 0)] Map.empty ?N
   = Inr (Expanded [(51 / 10, 5, 0) \<mapsto> 5 / 2]
       [Node 3 1 (45 / 8, 5, 0) (Some (1, 0)) (Some ?N)])"
    by (rule search_iteration_example) simp_all
  from search_iteration_by_design[OF st g it]
  have "motion_predict_CSDA ?P (41 / 8) 5 0 1 0 = Inr (Some (45 / 8, 5, 0))"
    by (auto split: if_splits)
  with st g it show ?thesis by blast
qed

text \<open>
  C4 as stated fails. From the node at \<open>(5.125, 5, 0)\<close> the action \<open>(1, 0)\<close> leads to
  \<open>(5.625, 5, 0)\<close>, whose discretized state is \<open>(5.6, 5, 0)\<close>. With that state already visited
  at the better value 0 the successor (\<open>f = 3\<close>) is pushed all the same, because the test
  looks up the undiscretized pose; and starting from an empty visited map the successor is
  pushed while the map gets no entry for \<open>(5.6, 5, 0)\<close>.
\<close>

theorem search_push_counterexample:
  "continuous_to_resolution
     \<lparr>world_width = 200, world_height = 200, resolution = 1 / 20, com = False,
      aug_map = replicate 200 (replicate 200 0), goal = (61 / 8, 5)\<rparr> (45 / 8, 5, 0)
     = (28 / 5, 5, 0)
   \<and> search_iteration
     \<lparr>world_width = 200, world_height = 200, resolution = 1 / 20, com = False,
      aug_map = replicate 200 (replicate 200 0), goal = (61 / 8, 5)\<rparr>
     [(1, 0)] [(28 / 5, 5, 0) \<mapsto> 0] (Node (5 / 2) 0 (41 / 8, 5, 0) None None)
   = Inr (Expanded [(28 / 5, 5, 0) \<mapsto> 0, (51 / 10, 5, 0) \<mapsto> 5 / 2]
       [Node 3 1 (45 / 8, 5, 0) (Some (1, 0))
          (Some (Node (5 / 2) 0 (41 / 8, 5, 0) None None))])
   \<and> search_iteration
     \<lparr>world_width = 200, world_height = 200, resolution = 1 / 20, com = False,
      aug_map = replicate 200 (replicate 200 0), goal = (61 / 8, 5)\<rparr>
     [(1, 0)] Map.empty (Node (5 / 2) 0 (41 / 8, 5, 0) None None)
   = Inr (Expanded [(51 / 10, 5, 0) \<mapsto> 5 / 2]
       [Node 3 1 (45 / 8, 5, 0) (Some (1, 0))
          (Some (Node (5 / 2) 0 (41 / 8, 5, 0) None None))])
   \<and> [(51 / 10 :: real, 5 :: real, 0 :: real) \<mapsto> 5 / 2 :: real] (28 / 5, 5, 0) = None"
proof -
  have a: "search_iteration
     \<lparr>world_width = 200, world_height = 200, resolution = 1 / 20, com = False,
      aug_map = replicate 200 (replicate 200 0), goal = (61 / 8, 5)\<rparr>
     [(1, 0)] [(28 / 5, 5, 0) \<mapsto> 0] (Node (5 / 2) 0 (41 / 8, 5, 0) None None)
   = Inr (Expanded [(28 / 5, 5, 0) \<mapsto> 0, (51 / 10, 5, 0) \<mapsto> 5 / 2]
       [Node 3 1 (45 / 8, 5, 0) (Some (1, 0))
          (Some (Node (5 / 2) 0 (41 / 8, 5, 0) None None))])"
    by (rule search_iteration_example) simp_all
  have b: "search_iteration
     \<lparr>world_width = 200, world_height = 200, resolution = 1 / 20, com = False,
      aug_map = replicate 200 (replicate 200 0), goal = (61 / 8, 5)\<rparr>
     [(1, 0)] Map.empty (Node (5 / 2) 0 (41 / 8, 5, 0) None None)
   = Inr (Expanded [(51 / 10, 5, 0) \<mapsto> 5 / 2]
       [Node 3 1 (45 / 8, 5, 0) (Some (1, 0))
          (Some (Node (5 / 2) 0 (41 / 8, 5, 0) None None))])"
    by (rule search_iteration_example) simp_all
  have c: "[(51 / 10 :: real, 5 :: real, 0 :: real) \<mapsto> 5 / 2 :: real] (28 / 5, 5, 0) = None" by simp
  from a b c key_next show ?thesis by blast
qed

section \<open>Motion model: closed forms\<close>

lemma collision_checker_DSPA_eq:
  assumes "0 < resolution self"
    and "wf_grid (world_height self) (world_width self) (aug_map self)"
  shows "collision_checker_DSPA self x y =
           Inr (py_int (y / resolution self) \<le> 0
                \<or> int (world_height self) \<le> py_int (y / resolution self)
                \<or> py_int (x / resolution self) \<le> 0
                \<or> int (world_width self) \<le> py_int (x / resolution self)
                \<or> aug_map self ! nat (py_int (y / resolution self))
                     ! nat (py_int (x / resolution self)) = 100)"
proof (cases "py_int (y / resolution self) \<le> 0
                \<or> int (world_height self) \<le> py_int (y / resolution self)
                \<or> py_int (x / resolution self) \<le> 0
                \<or> int (world_width self) \<le> py_int (x / resolution self)")
  case True
  then show ?thesis using assms(1)
    by (auto simp: collision_checker_DSPA_def Let_def)
next
  case False
  then have "np_get2 (aug_map self) (py_int (y / resolution self)) (py_int (x / resolution self))
             = Inr (aug_map self ! nat (py_int (y / resolution self))
                      ! nat (py_int (x / resolution self)))"
    by (intro np_get2_in_range[OF assms(2)]) simp_all
  then show ?thesis using False assms(1)
    by (simp add: collision_checker_DSPA_def Let_def err_bind_def)
qed

lemma motion_steps_total:
  assumes "\<And>px py. \<exists>b. chk px py = Inr b"
  shows "\<exists>r. motion_steps chk n x y theta v w f = Inr r"
proof (induction n arbitrary: x y theta)
  case 0
  then show ?case by simp
next
  case (Suc n)
  let ?dx = "(if w \<noteq> 0 then - v / w * sin theta + v / w * sin (theta + w / f)
                else v * cos theta / f)"
  let ?dy = "(if w \<noteq> 0 then v / w * cos theta - v / w * cos (theta + w / f)
                else v * sin theta / f)"
  from assms[of "x + ?dx" "y + ?dy"] obtain b where b: "chk (x + ?dx) (y + ?dy) = Inr b"
    by blast
  show ?case
  proof (cases b)
    case True
    with b show ?thesis by (simp add: Let_def err_bind_def)
  next
    case False
    from Suc.IH[of "x + ?dx" "y + ?dy" "theta + w / f"] obtain r where
      "motion_steps chk n (x + ?dx) (y + ?dy) (theta + w / f) v w f = Inr r" by blast
    with b False show ?thesis by (simp add: Let_def err_bind_def)
  qed
qed

lemma motion_steps_Suc_Some:
  assumes "motion_steps chk (Suc n) x y theta v w f = Inr (Some p)"
  shows "chk (x + (if w \<noteq> 0 then - v / w * sin theta + v / w * sin (theta + w / f)
                else v * cos theta / f))
             (y + (if w \<noteq> 0 then v / w * cos theta - v / w * cos (theta + w / f)
                else v * sin theta / f)) = Inr False
         \<and> motion_steps chk n
             (x + (if w \<noteq> 0 then - v / w * sin theta + v / w * sin (theta + w / f)
                else v * cos theta / f))
             (y + (if w \<noteq> 0 then v / w * cos theta - v / w * cos (theta + w / f)
                else v * sin theta / f)) (theta + w / f) v w f = Inr (Some p)"
  using assms
  by (auto simp: Let_def err_bind_def split: sum.splits if_splits)

lemma motion_steps_Some_arc:
  assumes "w \<noteq> 0"
    and "motion_steps chk n x y theta v w f = Inr (Some (x', y', theta'))"
  shows "theta' = theta + of_nat n * (w / f)
         \<and> x' = x + v / w * (sin theta' - sin theta)
         \<and> y' = y - v / w * (cos theta' - cos theta)"
  using assms(2)
proof (induction n arbitrary: x y theta)
  case 0
  then show ?case by simp
next
  case (Suc n)
  from motion_steps_Suc_Some[OF Suc.prems] assms(1)
  have rest: "motion_steps chk n (x + (- v / w * sin theta + v / w * sin (theta + w / f)))
               (y + (v / w * cos theta - v / w * cos (theta + w / f))) (theta + w / f) v w f
              = Inr (Some (x', y', theta'))" by simp
  from Suc.IH[OF rest]
  have t: "theta' = theta + w / f + of_nat n * (w / f)"
    and xx: "x' = x + (- v / w * sin theta + v / w * sin (theta + w / f))
                  + v / w * (sin theta' - sin (theta + w / f))"
    and yy: "y' = y + (v / w * cos theta - v / w * cos (theta + w / f))
                  - v / w * (cos theta' - cos (theta + w / f))"
    by simp_all
  have 1: "theta' = theta + of_nat (Suc n) * (w / f)"
    using t by (simp add: algebra_simps add_divide_distrib diff_divide_distrib)
  have 2: "x' = x + v / w * (sin theta' - sin theta)"
    using xx by (simp add: algebra_simps add_divide_distrib diff_divide_distrib)
  have 3: "y' = y - v / w * (cos theta' - cos theta)"
    using yy by (simp add: algebra_simps add_divide_distrib diff_divide_distrib)
  from 1 2 3 show ?case by blast
qed

lemma motion_steps_Some_line:
  assumes "motion_steps chk n x y theta v 0 f = Inr (Some (x', y', theta'))"
  shows "theta' = theta
         \<and> x' = x + of_nat n * (v * cos theta / f)
         \<and> y' = y + of_nat n * (v * sin theta / f)"
  using assms
proof (induction n arbitrary: x y)
  case 0
  then show ?case by simp
next
  case (Suc n)
  from motion_steps_Suc_Some[OF Suc.prems]
  have rest: "motion_steps chk n (x + v * cos theta / f) (y + v * sin theta / f) theta v 0 f
              = Inr (Some (x', y', theta'))" by simp
  from Suc.IH[OF rest] show ?case by (simp add: algebra_simps add_divide_distrib diff_divide_distrib)
qed

lemma motion_steps_Some_free:
  assumes "motion_steps chk n x y theta v w f = Inr (Some (x', y', theta'))" and "0 < n"
  shows "chk x' y' = Inr False"
  using assms
proof (induction n arbitrary: x y theta)
  case 0
  then show ?case by simp
next
  case (Suc n)
  let ?dx = "(if w \<noteq> 0 then - v / w * sin theta + v / w * sin (theta + w / f)
                else v * cos theta / f)"
  let ?dy = "(if w \<noteq> 0 then v / w * cos theta - v / w * cos (theta + w / f)
                else v * sin theta / f)"
  from motion_steps_Suc_Some[OF Suc.prems(1)]
  have first: "chk (x + ?dx) (y + ?dy) = Inr False"
    and rest: "motion_steps chk n (x + ?dx) (y + ?dy) (theta + w / f) v w f
               = Inr (Some (x', y', theta'))" by blast+
  show ?case
  proof (cases n)
    case 0
    with rest first show ?thesis by simp
  next
    case (Suc m)
    then have "0 < n" by simp
    from Suc.IH[OF rest this] show ?thesis .
  qed
qed

lemma motion_steps_free_arc:
  assumes "w \<noteq> 0"
    and "\<forall>j\<in>{1..n}. chk (x + v / w * (sin (theta + of_nat j * (w / f)) - sin theta))
                         (y - v / w * (cos (theta + of_nat j * (w / f)) - cos theta)) = Inr False"
  shows "motion_steps chk n x y theta v w f
         = Inr (Some (x + v / w * (sin (theta + of_nat n * (w / f)) - sin theta),
                      y - v / w * (cos (theta + of_nat n * (w / f)) - cos theta),
                      theta + of_nat n * (w / f)))"
  using assms(2)
proof (induction n arbitrary: x y theta)
  case 0
  then show ?case by simp
next
  case (Suc n)
  let ?x1 = "x + (- v / w * sin theta + v / w * sin (theta + w / f))"
  let ?y1 = "y + (v / w * cos theta - v / w * cos (theta + w / f))"
  let ?t1 = "theta + w / f"
  have x1: "?x1 = x + v / w * (sin (theta + of_nat 1 * (w / f)) - sin theta)"
    by (simp add: algebra_simps add_divide_distrib diff_divide_distrib)
  have y1: "?y1 = y - v / w * (cos (theta + of_nat 1 * (w / f)) - cos theta)"
    by (simp add: algebra_simps add_divide_distrib diff_divide_distrib)
  have first: "chk ?x1 ?y1 = Inr False"
    unfolding x1 y1 using Suc.prems[rule_format, of 1] by simp
  have rest: "\<forall>j\<in>{1..n}. chk (?x1 + v / w * (sin (?t1 + of_nat j * (w / f)) - sin ?t1))
                         (?y1 - v / w * (cos (?t1 + of_nat j * (w / f)) - cos ?t1)) = Inr False"
  proof
    fix j assume "j \<in> {1..n}"
    then have "Suc j \<in> {1..Suc n}" by simp
    from Suc.prems[rule_format, OF this]
    show "chk (?x1 + v / w * (sin (?t1 + of_nat j * (w / f)) - sin ?t1))
              (?y1 - v / w * (cos (?t1 + of_nat j * (w / f)) - cos ?t1)) = Inr False"
      by (simp add: algebra_simps add_divide_distrib diff_divide_distrib)
  qed
  have step: "motion_steps chk (Suc n) x y theta v w f = motion_steps chk n ?x1 ?y1 ?t1 v w f"
    using first assms(1) by (simp add: Let_def err_bind_def)
  show ?case unfolding step Suc.IH[OF rest] by (simp add: algebra_simps add_divide_distrib diff_divide_distrib)
qed

section \<open>Discrete motion: results are states of the table\<close>

lemma py_round_of_int [simp]: "py_round (of_int n) = n"
  by (simp add: py_round_def Let_def)

lemma quarter_turn_values:
  assumes "h \<in> {0, 1, 2, 3 :: int}"
  shows "\<exists>c s :: int. cos (of_int h * pi / 2) = of_int c \<and> sin (of_int h * pi / 2) = of_int s"
proof -
  consider "h = 0" | "h = 1" | "h = 2" | "h = 3" using assms by auto
  then show ?thesis
  proof cases
    case 1
    then show ?thesis by (intro exI[of _ 1] exI[of _ 0]) simp
  next
    case 2
    then show ?thesis by (intro exI[of _ 0] exI[of _ 1]) simp
  next
    case 3
    then show ?thesis by (intro exI[of _ "- 1"] exI[of _ 0]) simp
  next
    case 4
    have "cos (3 * pi / 2) = 0" "sin (3 * pi / 2) = - 1"
      using cos_3over2_pi sin_3over2_pi by (simp_all add: mult.commute)
    with 4 show ?thesis by (intro exI[of _ 0] exI[of _ "- 1"]) simp
  qed
qed

lemma quarter_turn_shift:
  assumes "w = 1 \<or> w = (- 1 :: int)"
  shows "sin (t + of_int w * pi / 2) = of_int w * cos t"
    and "cos (t + of_int w * pi / 2) = - of_int w * sin t"
  using assms by (auto simp: sin_add cos_add sin_diff cos_diff)

lemma num_steps_default: "nat (py_int (1 / 2 * 10)) = 5"
  by (simp add: py_int_def)

lemma discrete_motion_predict_SomeD:
  assumes "discrete_motion_predict self x y h v w = Inr (Some (x', y', h'))"
  shows "\<exists>x1 y1 t1 x2 y2 t2.
           motion_steps (collision_checker_DSPA self) 5 (of_int x) (of_int y)
             (of_int h * pi / 2) v (of_int w * pi / 2) 10 = Inr (Some (x1, y1, t1))
           \<and> motion_steps (collision_checker_DSPA self) 5 x1 y1 t1 v (of_int w * pi / 2) 10
               = Inr (Some (x2, y2, t2))
           \<and> x' = py_round x2 \<and> y' = py_round y2 \<and> h' = py_round (t2 / (pi / 2)) mod 4"
  using assms
  unfolding discrete_motion_predict_def motion_predict_DSPA_def motion_predict_def
    num_steps_default Let_def
  by (auto simp: err_bind_def split: sum.splits option.splits)

lemma discrete_motion_predict_lands_free:
  assumes h: "h \<in> {0, 1, 2, 3}"
    and vw: "(w = 0 \<and> v = of_int k) \<or> ((w = 1 \<or> w = - 1) \<and> v = of_int k * (pi / 2))"
    and res: "discrete_motion_predict self x y h v w = Inr (Some (x', y', h'))"
  shows "collision_checker_DSPA self (of_int x') (of_int y') = Inr False \<and> 0 \<le> h' \<and> h' < 4"
proof -
  let ?chk = "collision_checker_DSPA self"
  let ?t = "of_int h * pi / 2 :: real"
  let ?wr = "of_int w * pi / 2 :: real"
  from discrete_motion_predict_SomeD[OF res] obtain x1 y1 t1 x2 y2 t2 where
    m1: "motion_steps ?chk 5 (of_int x) (of_int y) ?t v ?wr 10 = Inr (Some (x1, y1, t1))"
    and m2: "motion_steps ?chk 5 x1 y1 t1 v ?wr 10 = Inr (Some (x2, y2, t2))"
    and x': "x' = py_round x2" and y': "y' = py_round y2"
    and h': "h' = py_round (t2 / (pi / 2)) mod 4"
    by blast
  from quarter_turn_values[OF h] obtain c s :: int where
    c: "cos ?t = of_int c" and s: "sin ?t = of_int s" by blast
  have free: "?chk x2 y2 = Inr False"
    by (rule motion_steps_Some_free[OF m2]) simp
  have "\<exists>a b :: int. x2 = of_int a \<and> y2 = of_int b"
  proof (cases "w = 0")
    case True
    with vw have v: "v = of_int k" by auto
    have wr0: "?wr = 0" using True by simp
    from motion_steps_Some_line[OF m1[unfolded wr0]]
    have l1: "t1 = ?t \<and> x1 = of_int x + of_nat 5 * (v * cos ?t / 10)
              \<and> y1 = of_int y + of_nat 5 * (v * sin ?t / 10)" .
    then have t1: "t1 = ?t" by blast
    from motion_steps_Some_line[OF m2[unfolded wr0 t1]]
    have l2: "x2 = x1 + of_nat 5 * (v * cos ?t / 10) \<and> y2 = y1 + of_nat 5 * (v * sin ?t / 10)"
      by blast
    have "x2 = of_int x + of_int k * of_int c" using l1 l2 unfolding c v by simp
    then have "x2 = of_int (x + k * c)" by simp
    moreover have "y2 = of_int y + of_int k * of_int s" using l1 l2 unfolding s v by simp
    then have "y2 = of_int (y + k * s)" by simp
    ultimately show ?thesis by blast
  next
    case False
    with vw have w: "w = 1 \<or> w = - 1" and v: "v = of_int k * (pi / 2)" by auto
    have wr: "?wr \<noteq> 0" using w by auto
    define r where "r = v / ?wr"
    have ratio: "r = of_int (k * w)" unfolding r_def using w v by auto
    from motion_steps_Some_arc[OF wr m1, folded r_def]
    have t1: "t1 = ?t + of_nat 5 * (?wr / 10)"
      and x1: "x1 = of_int x + r * (sin t1 - sin ?t)"
      and y1: "y1 = of_int y - r * (cos t1 - cos ?t)" by blast+
    from motion_steps_Some_arc[OF wr m2, folded r_def]
    have t2': "t2 = t1 + of_nat 5 * (?wr / 10)"
      and x2: "x2 = x1 + r * (sin t2 - sin t1)"
      and y2: "y2 = y1 - r * (cos t2 - cos t1)" by blast+
    have t2: "t2 = ?t + ?wr" unfolding t2' t1 by simp
    have sin2: "sin t2 = of_int (w * c)" and cos2: "cos t2 = of_int (- w * s)"
      unfolding t2 using quarter_turn_shift[OF w, of ?t] c s by simp_all
    have "x2 = of_int x + r * (sin t2 - sin ?t)"
      unfolding x2 x1 by (simp add: algebra_simps)
    then have "x2 = of_int (x + k * w * (w * c - s))"
      unfolding ratio sin2 s by simp
    moreover have "y2 = of_int y - r * (cos t2 - cos ?t)"
      unfolding y2 y1 by (simp add: algebra_simps)
    then have "y2 = of_int (y - k * w * (- w * s - c))"
      unfolding ratio cos2 c by simp
    ultimately show ?thesis by blast
  qed
  then obtain a b :: int where "x2 = of_int a" "y2 = of_int b" by blast
  with free x' y' have "?chk (of_int x') (of_int y') = Inr False" by simp
  moreover have "0 \<le> h'" "h' < 4" unfolding h' by simp_all
  ultimately show ?thesis by blast
qed

lemma set_state_grid:
  "set (concat (map (\<lambda>h. concat (map (\<lambda>w. map (\<lambda>t. (w, h, t)) ts) ws)) hs))
   = {(w, h, t). w \<in> set ws \<and> h \<in> set hs \<and> t \<in> set ts}"
  by auto

lemma mdp_states_iff:
  "(x, y, h) \<in> set (mdp_states self) \<longleftrightarrow>
     0 \<le> x \<and> x \<le> py_int (of_nat (world_width self) * resolution self)
     \<and> 0 \<le> y \<and> y \<le> py_int (of_nat (world_height self) * resolution self)
     \<and> 0 \<le> h \<and> h \<le> 3"
  unfolding mdp_states_def set_state_grid
  by (simp only: set_upto mem_Collect_eq prod.case atLeastAtMost_iff conj_assoc)

lemma free_cell_in_states:
  assumes "0 < resolution self"
    and "wf_grid (world_height self) (world_width self) (aug_map self)"
    and "collision_checker_DSPA self (of_int x) (of_int y) = Inr False"
    and "0 \<le> h" "h < 4"
  shows "(x, y, h) \<in> set (mdp_states self)"
proof -
  let ?r = "resolution self"
  from assms(3) collision_checker_DSPA_eq[OF assms(1,2), of "of_int x" "of_int y"]
  have iy: "0 < py_int (of_int y / ?r)" "py_int (of_int y / ?r) < int (world_height self)"
    and ix: "0 < py_int (of_int x / ?r)" "py_int (of_int x / ?r) < int (world_width self)"
    by auto
  have range: "0 \<le> z \<and> z \<le> py_int (of_nat n * ?r)"
    if "0 < py_int (of_int z / ?r)" "py_int (of_int z / ?r) < int n" for z :: int and n :: nat
  proof -
    from that(1) have ge: "1 \<le> of_int z / ?r"
      using py_int_le_zero[of "of_int z / ?r"] by simp
    then have pos: "0 < (of_int z :: real)"
      using assms(1) by (simp add: pos_le_divide_eq)
    have "py_int (of_int z / ?r) = \<lfloor>of_int z / ?r\<rfloor>"
      using ge by (simp add: py_int_def)
    with that(2) have "of_int z / ?r < of_nat n"
      by (simp add: floor_less_iff)
    then have lt: "of_int z < of_nat n * ?r"
      using assms(1) by (simp add: pos_divide_less_eq)
    then have "0 \<le> of_nat n * ?r" using pos by linarith
    then have "py_int (of_nat n * ?r) = \<lfloor>of_nat n * ?r\<rfloor>" by (simp add: py_int_def)
    moreover have "z \<le> \<lfloor>of_nat n * ?r\<rfloor>" using lt by (simp add: le_floor_iff)
    moreover have "0 \<le> z" using pos by simp
    ultimately show ?thesis by simp
  qed
  from range[OF ix] range[OF iy] assms(4,5) show ?thesis
    by (simp add: mdp_states_iff)
qed

lemma discrete_motion_predict_in_states:
  assumes "0 < resolution self"
    and "wf_grid (world_height self) (world_width self) (aug_map self)"
    and "h \<in> {0, 1, 2, 3}"
    and "(w = 0 \<and> v = of_int k) \<or> ((w = 1 \<or> w = - 1) \<and> v = of_int k * (pi / 2))"
    and "discrete_motion_predict self x y h v w = Inr (Some s')"
  shows "s' \<in> set (mdp_states self)
         \<and> collision_checker_DSPA self (of_int (fst s')) (of_int (fst (snd s'))) = Inr False"
proof -
  obtain x' y' h' where s': "s' = (x', y', h')" by (cases s') auto
  from discrete_motion_predict_lands_free[OF assms(3,4) assms(5)[unfolded s']]
  have f: "collision_checker_DSPA self (of_int x') (of_int y') = Inr False"
    and h: "0 \<le> h'" "h' < 4" by blast+
  from free_cell_in_states[OF assms(1,2) f h] f s' show ?thesis by simp
qed

lemma discrete_motion_predict_total:
  assumes "0 < resolution self"
    and "wf_grid (world_height self) (world_width self) (aug_map self)"
  shows "\<exists>r. discrete_motion_predict self x y h v w = Inr r"
proof -
  let ?chk = "collision_checker_DSPA self"
  have tot: "\<And>px py. \<exists>b. ?chk px py = Inr b"
    using collision_checker_DSPA_eq[OF assms] by blast
  from motion_steps_total[of ?chk 5 "of_int x" "of_int y" "of_int h * pi / 2" v
      "of_int w * pi / 2" 10, OF tot]
  obtain r1 where r1: "motion_steps ?chk 5 (of_int x) (of_int y) (of_int h * pi / 2) v
      (of_int w * pi / 2) 10 = Inr r1" by blast
  show ?thesis
  proof (cases r1)
    case None
    with r1 show ?thesis
      unfolding discrete_motion_predict_def motion_predict_DSPA_def motion_predict_def
        num_steps_default Let_def
      by (simp add: err_bind_def)
  next
    case (Some p)
    obtain x1 y1 t1 where p: "p = (x1, y1, t1)" by (cases p) auto
    from motion_steps_total[of ?chk 5 x1 y1 t1 v "of_int w * pi / 2" 10, OF tot]
    obtain r2 where r2: "motion_steps ?chk 5 x1 y1 t1 v (of_int w * pi / 2) 10 = Inr r2"
      by blast
    from r1 r2 Some p show ?thesis
      unfolding discrete_motion_predict_def motion_predict_DSPA_def motion_predict_def
        num_steps_default Let_def
      by (cases r2) (auto simp: err_bind_def)
  qed
qed

section \<open>Value iteration: the planner returns\<close>

lemma err_bind_Inr [simp]: "err_bind (Inr a) f = f a"
  by (simp add: err_bind_def)

lemma err_bind_Inl [simp]: "err_bind (Inl e) f = Inl e"
  by (simp add: err_bind_def)

lemma err_bind_eq_Inr:
  "err_bind m f = Inr b \<longleftrightarrow> (\<exists>a. m = Inr a \<and> f a = Inr b)"
  by (cases m) simp_all

lemma valid_moves [simp]:
  "valid_move 1 0" "valid_move (pi / 2) 1" "valid_move (pi / 2) (- 1)"
  "valid_move 0 1" "valid_move 0 (- 1)"
proof -
  show "valid_move 1 0" unfolding valid_move_def by (rule exI[of _ 1]) simp
  show "valid_move (pi / 2) 1" unfolding valid_move_def by (rule exI[of _ 1]) simp
  show "valid_move (pi / 2) (- 1)" unfolding valid_move_def by (rule exI[of _ 1]) simp
  show "valid_move 0 1" unfolding valid_move_def by (rule exI[of _ 0]) simp
  show "valid_move 0 (- 1)" unfolding valid_move_def by (rule exI[of _ 0]) simp
qed

lemma states_heading:
  "(x, y, h) \<in> set (mdp_states self) \<Longrightarrow> h \<in> {0, 1, 2, 3}"
  by (auto simp: mdp_states_iff)

lemma move_outcome:
  assumes "good_planner self" and "(x, y, h) \<in> set (mdp_states self)" and "valid_move v w"
  shows "discrete_motion_predict self x y h v w = Inr None
         \<or> (\<exists>s'. discrete_motion_predict self x y h v w = Inr (Some s')
                \<and> s' \<in> set (mdp_states self)
                \<and> collision_checker_DSPA self (of_int (fst s')) (of_int (fst (snd s')))
                    = Inr False)"
proof -
  from assms(1) have res: "0 < resolution self"
    and wf: "wf_grid (world_height self) (world_width self) (aug_map self)"
    by (simp_all add: good_planner_def)
  from discrete_motion_predict_total[OF res wf, of x y h v w]
  obtain r where r: "discrete_motion_predict self x y h v w = Inr r" by blast
  show ?thesis
  proof (cases r)
    case None
    with r show ?thesis by simp
  next
    case (Some s')
    from assms(3) obtain k :: int where
      k: "(w = 0 \<and> v = of_int k) \<or> ((w = 1 \<or> w = - 1) \<and> v = of_int k * (pi / 2))"
      unfolding valid_move_def by blast
    from discrete_motion_predict_in_states[OF res wf states_heading[OF assms(2)] k
        r[unfolded Some]] r Some
    show ?thesis by simp
  qed
qed

lemma move_value_total:
  assumes "good_planner self" and "(x, y, h) \<in> set (mdp_states self)" and "valid_move v w"
    and "set (mdp_states self) \<subseteq> dom values"
  shows "\<exists>u. err_bind (discrete_motion_predict self x y h v w) (get_next_state_value values)
              = Inr u"
proof -
  from move_outcome[OF assms(1,2,3)] show ?thesis
  proof
    assume "discrete_motion_predict self x y h v w = Inr None"
    then show ?thesis by (simp add: get_next_state_value_def)
  next
    assume "\<exists>s'. discrete_motion_predict self x y h v w = Inr (Some s')
                \<and> s' \<in> set (mdp_states self)
                \<and> collision_checker_DSPA self (of_int (fst s')) (of_int (fst (snd s')))
                    = Inr False"
    then obtain s' where s': "discrete_motion_predict self x y h v w = Inr (Some s')"
      "s' \<in> set (mdp_states self)" by blast
    with assms(4) obtain u where "values s' = Some u" by blast
    with s' show ?thesis by (simp add: get_next_state_value_def)
  qed
qed

lemma forward_value_total:
  assumes "good_planner self" and "(x, y, h) \<in> set (mdp_states self)"
    and "set (mdp_states self) \<subseteq> dom values"
  shows "\<exists>u. get_forward_action_value self values (x, y, h) = Inr u"
proof -
  from move_value_total[OF assms(1,2) valid_moves(1) assms(3)] obtain u1 where
    u1: "err_bind (discrete_motion_predict self x y h 1 0) (get_next_state_value values) = Inr u1"
    by blast
  from move_value_total[OF assms(1,2) valid_moves(2) assms(3)] obtain u2 where
    u2: "err_bind (discrete_motion_predict self x y h (pi / 2) 1) (get_next_state_value values)
         = Inr u2" by blast
  from move_value_total[OF assms(1,2) valid_moves(3) assms(3)] obtain u3 where
    u3: "err_bind (discrete_motion_predict self x y h (pi / 2) (- 1))
           (get_next_state_value values) = Inr u3" by blast
  from u1 u2 u3 show ?thesis
    unfolding get_forward_action_value_def err_bind_eq_Inr by auto
qed

lemma next_state_value_total:
  assumes "good_planner self" and "s \<in> set (mdp_states self)"
    and "set (mdp_states self) \<subseteq> dom values"
  shows "\<exists>u. next_state_value self values s a = Inr u"
proof -
  obtain x y h where s: "s = (x, y, h)" by (cases s) auto
  show ?thesis
  proof (cases "a = (0, 1) \<or> a = (0, - 1)")
    case True
    then have "valid_move (of_int (fst a)) (snd a)" by auto
    from move_value_total[OF assms(1) assms(2)[unfolded s] this assms(3)] True s
    show ?thesis by (auto simp: next_state_value_def)
  next
    case False
    from forward_value_total[OF assms(1) assms(2)[unfolded s] assms(3)] False s
    show ?thesis by (simp add: next_state_value_def)
  qed
qed

lemma current_state_value_total:
  assumes "good_planner self"
  shows "\<exists>r. get_current_state_value self s = Inr r"
proof -
  obtain x y h where s: "s = (x, y, h)" by (cases s) auto
  from assms have res: "0 < resolution self"
    and wf: "wf_grid (world_height self) (world_width self) (aug_map self)"
    by (simp_all add: good_planner_def)
  note eq = collision_checker_DSPA_eq[OF res wf, of "of_int x" "of_int y"]
  show ?thesis
  proof (cases "collision_checker_DSPA self (of_int x) (of_int y) = Inr True")
    case True
    then show ?thesis by (simp add: get_current_state_value_def s)
  next
    case False
    with eq have free: "collision_checker_DSPA self (of_int x) (of_int y) = Inr False"
      and w: "0 < py_int (of_int x / resolution self)"
        "py_int (of_int x / resolution self) < int (world_width self)"
      by auto
    from w have "0 < world_width self" by linarith
    then have "0 < distance_penalty_normalization self"
      using res by (simp add: distance_penalty_normalization_def add_nonneg_pos)
    with free show ?thesis by (simp add: get_current_state_value_def s)
  qed
qed

lemma bellman_loop_total:
  assumes "good_planner self" and "s \<in> set (mdp_states self)"
    and "set (mdp_states self) \<subseteq> dom values"
  shows "\<exists>r. bellman_loop self values s actions acc = Inr r"
proof (induction actions arbitrary: acc)
  case Nil
  then show ?case by simp
next
  case (Cons a actions)
  from current_state_value_total[OF assms(1), of s] obtain c where
    c: "get_current_state_value self s = Inr c" by blast
  from next_state_value_total[OF assms, of a] obtain u where
    u: "next_state_value self values s a = Inr u" by blast
  from Cons.IH show ?case by (simp add: c u Let_def)
qed

lemma update_state_total:
  assumes "good_planner self" and "s \<in> set (mdp_states self)"
    and "set (mdp_states self) \<subseteq> dom values"
  shows "\<exists>values'. update_state self values s = Inr values'
           \<and> set (mdp_states self) \<subseteq> dom values'"
proof -
  from bellman_loop_total[OF assms, of mdp_actions "- 10000000"] obtain r where
    "bellman_loop self values s mdp_actions (- 10000000) = Inr r" by blast
  then show ?thesis using assms(3) by (auto simp: update_state_def)
qed

lemma sweep_total:
  assumes "good_planner self" and "set ss \<subseteq> set (mdp_states self)"
    and "set (mdp_states self) \<subseteq> dom values"
  shows "\<exists>values'. sweep self ss values = Inr values'
           \<and> set (mdp_states self) \<subseteq> dom values'"
  using assms(2,3)
proof (induction ss arbitrary: "values")
  case Nil
  then show ?case by simp
next
  case (Cons s ss)
  from Cons.prems have s: "s \<in> set (mdp_states self)" by simp
  from update_state_total[OF assms(1) s Cons.prems(2)] obtain v1 where
    v1: "update_state self values s = Inr v1" "set (mdp_states self) \<subseteq> dom v1" by blast
  from Cons.IH[OF _ v1(2)] Cons.prems(1) v1(1) show ?case by simp
qed

lemma value_sweeps_total:
  assumes "good_planner self" and "set (mdp_states self) \<subseteq> dom values"
  shows "\<exists>values'. value_sweeps self (mdp_states self) n values = Inr values'
           \<and> set (mdp_states self) \<subseteq> dom values'"
  using assms(2)
proof (induction n arbitrary: "values")
  case 0
  then show ?case by simp
next
  case (Suc n)
  from sweep_total[OF assms(1) subset_refl Suc.prems] obtain v1 where
    v1: "sweep self (mdp_states self) values = Inr v1" "set (mdp_states self) \<subseteq> dom v1"
    by blast
  from Suc.IH[OF v1(2)] v1(1) show ?case by simp
qed

lemma dom_fold_init:
  "dom (fold (\<lambda>state values. values(state \<mapsto> c)) ss m) = set ss \<union> dom m"
  by (induction ss arbitrary: m) auto

lemma dom_initial_values: "dom (initial_values ss) = set ss"
  by (simp add: initial_values_def dom_fold_init)

lemma value_iteration_total:
  assumes "good_planner self"
  shows "\<exists>values. value_iteration self = Inr values \<and> set (mdp_states self) \<subseteq> dom values"
  unfolding value_iteration_def
  by (rule value_sweeps_total[OF assms]) (simp add: dom_initial_values)

lemma best_action_loop_total:
  assumes "good_planner self" and "s \<in> set (mdp_states self)"
    and "set (mdp_states self) \<subseteq> dom values"
  shows "\<exists>r. best_action_loop self values s actions best = Inr r"
proof (induction actions arbitrary: best)
  case Nil
  then show ?case by simp
next
  case (Cons a actions)
  from next_state_value_total[OF assms, of a] obtain u where
    u: "next_state_value self values s a = Inr u" by blast
  from Cons.IH show ?case by (simp add: u)
qed

lemma extract_policy_total:
  assumes "good_planner self" and "set ss \<subseteq> set (mdp_states self)"
    and "set (mdp_states self) \<subseteq> dom values"
  shows "\<exists>table. extract_policy self values ss tab = Inr table"
  using assms(2)
proof (induction ss arbitrary: tab)
  case Nil
  then show ?case by simp
next
  case (Cons s ss)
  from Cons.prems have s: "s \<in> set (mdp_states self)" by simp
  from best_action_loop_total[OF assms(1) s assms(3), of mdp_actions "(- 10000000, None)"]
  obtain r where r: "best_action_loop self values s mdp_actions (- 10000000, None) = Inr r"
    by blast
  from Cons.IH Cons.prems show ?case by (simp add: r)
qed

lemma generate_plan_total:
  assumes "good_planner self"
  shows "\<exists>table. generate_plan self = Inr table"
proof -
  from value_iteration_total[OF assms] obtain v where
    v: "value_iteration self = Inr v" "set (mdp_states self) \<subseteq> dom v" by blast
  from extract_policy_total[OF assms subset_refl v(2), of "[]"] v(1)
  show ?thesis by (simp add: generate_plan_def)
qed

section \<open>Policy table: keys and extraction\<close>

lemma digit_codes: "map of_char ''0123456789'' = [48..<58 :: nat]"
  by code_simp

lemma digit_char_code: "d < 10 \<Longrightarrow> of_char (digit_char d) = (48 + d :: nat)"
proof -
  assume d: "d < 10"
  have "of_char (digit_char d) = map of_char ''0123456789'' ! d"
    unfolding digit_char_def using d by (subst nth_map) simp_all
  also have "\<dots> = 48 + d" unfolding digit_codes using d by (subst nth_upt) simp_all
  finally show ?thesis .
qed

lemma digit_char_inj:
  assumes "a < 10" "b < 10" "digit_char a = digit_char b"
  shows "a = b"
proof -
  have "(48 + a :: nat) = of_char (digit_char a)"
    by (rule digit_char_code[OF assms(1), symmetric])
  also have "\<dots> = of_char (digit_char b)" by (simp only: assms(3))
  also have "\<dots> = 48 + b" by (rule digit_char_code[OF assms(2)])
  finally show ?thesis by simp
qed

lemma comma_code: "of_char (CHR '','') = (44 :: nat)"
  by code_simp

lemma digit_char_not_comma: "d < 10 \<Longrightarrow> digit_char d \<noteq> CHR '',''"
proof
  assume "d < 10" and "digit_char d = CHR '',''"
  then have "(48 + d :: nat) = 44" using digit_char_code[of d] comma_code by simp
  then show False by simp
qed

lemma str_nat_small: "n < 10 \<Longrightarrow> str_nat n = [digit_char n]"
  by (subst str_nat.simps) simp

lemma str_nat_big:
  "\<not> n < 10 \<Longrightarrow> str_nat n = str_nat (n div 10) @ [digit_char (n mod 10)]"
  by (subst str_nat.simps) simp

lemma str_nat_nonempty: "str_nat n \<noteq> []"
  by (cases "n < 10") (simp_all add: str_nat_small str_nat_big)

lemma str_nat_no_comma: "CHR '','' \<notin> set (str_nat n)"
proof (induction n rule: less_induct)
  case (less n)
  show ?case
  proof (cases "n < 10")
    case True
    then show ?thesis using digit_char_not_comma[of n] by (simp add: str_nat_small)
  next
    case False
    then have "n div 10 < n" by simp
    from less[OF this] False digit_char_not_comma[of "n mod 10"]
    show ?thesis by (simp add: str_nat_big)
  qed
qed

lemma str_nat_inj: "str_nat m = str_nat n \<Longrightarrow> m = n"
proof (induction m arbitrary: n rule: less_induct)
  case (less m)
  show ?case
  proof (cases "m < 10")
    case True
    show ?thesis
    proof (cases "n < 10")
      case n: True
      with True less.prems show ?thesis
        by (simp add: str_nat_small digit_char_inj)
    next
      case False
      with True less.prems str_nat_nonempty[of "n div 10"] show ?thesis
        by (simp add: str_nat_small str_nat_big Cons_eq_append_conv)
    qed
  next
    case False
    show ?thesis
    proof (cases "n < 10")
      case True
      with False less.prems str_nat_nonempty[of "m div 10"] show ?thesis
        by (simp add: str_nat_small str_nat_big append_eq_Cons_conv)
    next
      case n: False
      from False n less.prems
      have eq: "str_nat (m div 10) = str_nat (n div 10)"
        and d: "digit_char (m mod 10) = digit_char (n mod 10)"
        by (simp_all add: str_nat_big)
      from False have "m div 10 < m" by simp
      from less.IH[OF this eq] have "m div 10 = n div 10" .
      moreover from d have "m mod 10 = n mod 10" by (intro digit_char_inj) simp_all
      ultimately show ?thesis by (metis div_mult_mod_eq)
    qed
  qed
qed

lemma str_int_nonneg: "0 \<le> i \<Longrightarrow> str_int i = str_nat (nat i)"
  by (simp add: str_int_def)

lemma split_at_first:
  assumes "c \<notin> set xs" "c \<notin> set xs'" "xs @ c # ys = xs' @ c # ys'"
  shows "xs = xs' \<and> ys = ys'"
  using assms
proof (induction xs arbitrary: xs')
  case Nil
  then show ?case by (cases xs') auto
next
  case (Cons a xs)
  show ?case
  proof (cases xs')
    case Nil
    with Cons.prems show ?thesis by auto
  next
    case (Cons b zs)
    with Cons.prems have "a = b" "c \<notin> set xs" "c \<notin> set zs" "xs @ c # ys = zs @ c # ys'"
      by auto
    with Cons.IH[of zs] Cons show ?thesis by simp
  qed
qed

lemma format_key_nonneg:
  assumes "0 \<le> x" "0 \<le> y" "0 \<le> h" "h \<le> 3"
  shows "format_key (x, y, h)
         = str_nat (nat x) @ CHR '','' # (str_nat (nat y) @ CHR '','' # str_nat (nat h))"
proof -
  have "h mod 4 = h" using assms by simp
  then show ?thesis using assms by (simp add: format_key_def str_int_nonneg)
qed

lemma format_key_inj:
  assumes "0 \<le> x" "0 \<le> y" "0 \<le> h" "h \<le> 3" "0 \<le> x'" "0 \<le> y'" "0 \<le> h'" "h' \<le> 3"
    and "format_key (x, y, h) = format_key (x', y', h')"
  shows "(x, y, h) = (x', y', h')"
proof -
  have e: "str_nat (nat x) @ CHR '','' # (str_nat (nat y) @ CHR '','' # str_nat (nat h))
     = str_nat (nat x') @ CHR '','' # (str_nat (nat y') @ CHR '','' # str_nat (nat h'))"
    using assms(9)
    by (simp only: format_key_nonneg[OF assms(1-4)] format_key_nonneg[OF assms(5-8)])
  have 1: "str_nat (nat x) = str_nat (nat x')
           \<and> str_nat (nat y) @ CHR '','' # str_nat (nat h)
               = str_nat (nat y') @ CHR '','' # str_nat (nat h')"
    by (rule split_at_first[OF str_nat_no_comma str_nat_no_comma e])
  then have e2: "str_nat (nat y) @ CHR '','' # str_nat (nat h)
               = str_nat (nat y') @ CHR '','' # str_nat (nat h')" by (rule conjunct2)
  have 2: "str_nat (nat y) = str_nat (nat y') \<and> str_nat (nat h) = str_nat (nat h')"
    by (rule split_at_first[OF str_nat_no_comma str_nat_no_comma e2])
  have "nat x = nat x'" by (rule str_nat_inj[OF conjunct1[OF 1]])
  then have "x = x'" using assms(1,5) by linarith
  moreover have "nat y = nat y'" by (rule str_nat_inj[OF conjunct1[OF 2]])
  then have "y = y'" using assms(2,6) by linarith
  moreover have "nat h = nat h'" by (rule str_nat_inj[OF conjunct2[OF 2]])
  then have "h = h'" using assms(3,7) by linarith
  ultimately show ?thesis by simp
qed

lemma format_key_inj_on_states: "inj_on format_key (set (mdp_states self))"
proof (rule inj_onI)
  fix s s' assume a: "s \<in> set (mdp_states self)" "s' \<in> set (mdp_states self)"
    "format_key s = format_key s'"
  obtain x y h where s: "s = (x, y, h)" by (cases s) auto
  obtain x' y' h' where s': "s' = (x', y', h')" by (cases s') auto
  from a(1,2) have "0 \<le> x" "0 \<le> y" "0 \<le> h" "h \<le> 3" "0 \<le> x'" "0 \<le> y'" "0 \<le> h'" "h' \<le> 3"
    unfolding s s' mdp_states_iff by simp_all
  from format_key_inj[OF this a(3)[unfolded s s']] show "s = s'" unfolding s s' .
qed

lemma map_of_dict_set: "map_of (dict_set k v ps) = (map_of ps)(k \<mapsto> v)"
  by (induction ps) auto

lemma extract_policy_frame:
  assumes "extract_policy self values ss tab = Inr table" and "k \<notin> format_key ` set ss"
  shows "map_of table k = map_of tab k"
  using assms
proof (induction ss arbitrary: tab)
  case Nil
  then show ?case by simp
next
  case (Cons s ss)
  from Cons.prems(1) obtain best :: "real \<times> (int \<times> int) option" where
    rest: "extract_policy self values ss (dict_set (format_key s) (snd best) tab) = Inr table"
    by (auto simp: err_bind_eq_Inr)
  from Cons.prems(2) have "k \<notin> format_key ` set ss" "k \<noteq> format_key s" by auto
  with Cons.IH[OF rest] show ?case by (simp add: map_of_dict_set)
qed

lemma extract_policy_lookup:
  assumes "extract_policy self values ss tab = Inr table"
    and "inj_on format_key (set ss)" and "s \<in> set ss"
  shows "\<exists>best. best_action_loop self values s mdp_actions (- 10000000, None) = Inr best
           \<and> map_of table (format_key s) = Some (snd best)"
  using assms
proof (induction ss arbitrary: tab)
  case Nil
  then show ?case by simp
next
  case (Cons s0 ss)
  from Cons.prems(1) obtain best where
    best: "best_action_loop self values s0 mdp_actions (- 10000000, None) = Inr best"
    and rest: "extract_policy self values ss (dict_set (format_key s0) (snd best) tab)
               = Inr table"
    by (auto simp: err_bind_eq_Inr)
  from Cons.prems(2) have inj: "inj_on format_key (set ss)" by (simp add: inj_on_def)
  show ?case
  proof (cases "s \<in> set ss")
    case True
    from Cons.IH[OF rest inj True] show ?thesis .
  next
    case False
    with Cons.prems(3) have s: "s = s0" by simp
    have "format_key s0 \<notin> format_key ` set ss"
    proof
      assume "format_key s0 \<in> format_key ` set ss"
      then obtain t where t: "t \<in> set ss" "format_key t = format_key s0" by auto
      with Cons.prems(2) have "t = s0" by (auto simp: inj_on_def)
      with t(1) False s show False by simp
    qed
    from extract_policy_frame[OF rest this] best s show ?thesis
      by (simp add: map_of_dict_set)
  qed
qed

lemma best_action_loop_step:
  "best_action_loop self values s (a # as) b = Inr r \<longleftrightarrow>
     (\<exists>u. next_state_value self values s a = Inr u
          \<and> best_action_loop self values s as (if fst b < u then (u, Some a) else b) = Inr r)"
  by (simp add: err_bind_eq_Inr)

lemma best_action_loop_stepD:
  assumes "best_action_loop self values s (a # as) b = Inr r"
  shows "\<exists>u. next_state_value self values s a = Inr u
          \<and> best_action_loop self values s as (if fst b < u then (u, Some a) else b) = Inr r"
  using assms by (simp add: err_bind_eq_Inr)

lemma best_action_loop_mdp:
  assumes "best_action_loop self values s mdp_actions (- 10000000, None) = Inr best"
  shows "\<exists>vf vl vr.
        next_state_value self values s (1, 0) = Inr vf
        \<and> next_state_value self values s (0, 1) = Inr vl
        \<and> next_state_value self values s (0, - 1) = Inr vr
        \<and> snd best = (if max (max (- 10000000) vf) vl < vr then Some (0, - 1)
                       else if max (- 10000000) vf < vl then Some (0, 1)
                       else if - 10000000 < vf then Some (1, 0)
                       else None)"
proof -
  define b0 :: "real \<times> (int \<times> int) option" where "b0 = (- 10000000, None)"
  from best_action_loop_stepD[OF assms[unfolded mdp_actions_def, folded b0_def]] obtain vf where
    vf: "next_state_value self values s (1, 0) = Inr vf"
    and r1: "best_action_loop self values s [(0, 1), (0, - 1)]
               (if fst b0 < vf then (vf, Some (1, 0)) else b0) = Inr best"
    by blast
  define b1 where "b1 = (if fst b0 < vf then (vf, Some (1, 0)) else b0)"
  from best_action_loop_stepD[OF r1[folded b1_def]] obtain vl where
    vl: "next_state_value self values s (0, 1) = Inr vl"
    and r2: "best_action_loop self values s [(0, - 1)]
               (if fst b1 < vl then (vl, Some (0, 1)) else b1) = Inr best"
    by blast
  define b2 where "b2 = (if fst b1 < vl then (vl, Some (0, 1)) else b1)"
  from best_action_loop_stepD[OF r2[folded b2_def]] obtain vr where
    vr: "next_state_value self values s (0, - 1) = Inr vr"
    and r3: "best_action_loop self values s []
               (if fst b2 < vr then (vr, Some (0, - 1)) else b2) = Inr best"
    by blast
  from r3 have best: "best = (if fst b2 < vr then (vr, Some (0, - 1)) else b2)" by simp
  have f1: "fst b1 = max (- 10000000) vf" by (simp add: b1_def b0_def max_def)
  have s1: "snd b1 = (if - 10000000 < vf then Some (1, 0) else None)"
    by (simp add: b1_def b0_def)
  have f2: "fst b2 = max (max (- 10000000) vf) vl" by (simp add: b2_def f1 max_def)
  have s2: "snd b2 = (if max (- 10000000) vf < vl then Some (0, 1) else snd b1)"
    by (simp add: b2_def f1)
  have "snd best = (if max (max (- 10000000) vf) vl < vr then Some (0, - 1) else snd b2)"
    by (simp add: best f2)
  then have "snd best = (if max (max (- 10000000) vf) vl < vr then Some (0, - 1)
                       else if max (- 10000000) vf < vl then Some (0, 1)
                       else if - 10000000 < vf then Some (1, 0)
                       else None)"
    by (simp only: s2 s1)
  with vf vl vr show ?thesis by blast
qed

lemma generate_plan_lookup:
  assumes "generate_plan self = Inr action_table" and "s \<in> set (mdp_states self)"
  shows "\<exists>values vf vl vr.
           value_iteration self = Inr values
           \<and> next_state_value self values s (1, 0) = Inr vf
           \<and> next_state_value self values s (0, 1) = Inr vl
           \<and> next_state_value self values s (0, - 1) = Inr vr
           \<and> lookup_action action_table s =
                Inr (if max (max (- 10000000) vf) vl < vr then Some (0, - 1)
                     else if max (- 10000000) vf < vl then Some (0, 1)
                     else if - 10000000 < vf then Some (1, 0)
                     else None)"
proof -
  from assms(1) obtain v where v: "value_iteration self = Inr v"
    and ex: "extract_policy self v (mdp_states self) [] = Inr action_table"
    by (auto simp: generate_plan_def err_bind_eq_Inr)
  from extract_policy_lookup[OF ex format_key_inj_on_states assms(2)] obtain best where
    best: "best_action_loop self v s mdp_actions (- 10000000, None) = Inr best"
    and look: "map_of action_table (format_key s) = Some (snd best)" by blast
  from best_action_loop_mdp[OF best] obtain vf vl vr where
    n: "next_state_value self v s (1, 0) = Inr vf"
    "next_state_value self v s (0, 1) = Inr vl"
    "next_state_value self v s (0, - 1) = Inr vr"
    and b: "snd best = (if max (max (- 10000000) vf) vl < vr then Some (0, - 1)
                       else if max (- 10000000) vf < vl then Some (0, 1)
                       else if - 10000000 < vf then Some (1, 0)
                       else None)" by blast
  have "lookup_action action_table s = Inr (snd best)"
    unfolding lookup_action_def look by simp
  with v n b show ?thesis by (simp only:) blast
qed

lemma policy_extraction_cases:
  assumes "generate_plan self = Inr action_table" and "s \<in> set (mdp_states self)"
  shows "\<exists>values best.
           value_iteration self = Inr values
           \<and> lookup_action action_table s = Inr best
           \<and> (case best of
                Some a \<Rightarrow>
                  a \<in> set mdp_actions
                  \<and> (\<exists>v. next_state_value self values s a = Inr v \<and> - 10000000 < v
                        \<and> (\<forall>b\<in>set mdp_actions.
                              \<exists>u. next_state_value self values s b = Inr u \<and> u \<le> v))
              | None \<Rightarrow>
                  (\<forall>b\<in>set mdp_actions.
                     \<exists>u. next_state_value self values s b = Inr u \<and> u \<le> - 10000000))"
proof -
  from generate_plan_lookup[OF assms] obtain v vf vl vr where
    v: "value_iteration self = Inr v"
    and nf: "next_state_value self v s (1, 0) = Inr vf"
    and nl: "next_state_value self v s (0, 1) = Inr vl"
    and nr: "next_state_value self v s (0, - 1) = Inr vr"
    and lk: "lookup_action action_table s =
                Inr (if max (max (- 10000000) vf) vl < vr then Some (0, - 1)
                     else if max (- 10000000) vf < vl then Some (0, 1)
                     else if - 10000000 < vf then Some (1, 0)
                     else None)" by blast
  have all: "\<forall>b\<in>set mdp_actions. \<exists>u. next_state_value self v s b = Inr u \<and> u \<le> t"
    if "vf \<le> t" "vl \<le> t" "vr \<le> t" for t
    unfolding mdp_actions_def using that nf nl nr by simp
  have chosen: ?thesis
    if "lookup_action action_table s = Inr (Some a)" "a \<in> set mdp_actions"
      "next_state_value self v s a = Inr va" "- 10000000 < va"
      "vf \<le> va" "vl \<le> va" "vr \<le> va" for a va
  proof (intro exI[of _ v] exI[of _ "Some a"] conjI)
    show "value_iteration self = Inr v" by (rule v)
    show "lookup_action action_table s = Inr (Some a)" by (rule that(1))
    have "\<exists>w. next_state_value self v s a = Inr w \<and> - 10000000 < w
            \<and> (\<forall>b\<in>set mdp_actions. \<exists>u. next_state_value self v s b = Inr u \<and> u \<le> w)"
      using that(3,4) all[OF that(5,6,7)] by blast
    with that(2) show "case Some a of
         Some a \<Rightarrow> a \<in> set mdp_actions
           \<and> (\<exists>v'. next_state_value self v s a = Inr v' \<and> - 10000000 < v'
                 \<and> (\<forall>b\<in>set mdp_actions.
                       \<exists>u. next_state_value self v s b = Inr u \<and> u \<le> v'))
       | None \<Rightarrow> (\<forall>b\<in>set mdp_actions.
                     \<exists>u. next_state_value self v s b = Inr u \<and> u \<le> - 10000000)"
      unfolding option.case by blast
  qed
  have mem: "(1, 0) \<in> set mdp_actions" "(0, 1) \<in> set mdp_actions"
    "(0, - 1) \<in> set mdp_actions" by (simp_all add: mdp_actions_def)
  consider (r) "max (max (- 10000000) vf) vl < vr"
    | (l) "\<not> max (max (- 10000000) vf) vl < vr" "max (- 10000000) vf < vl"
    | (f) "\<not> max (max (- 10000000) vf) vl < vr" "\<not> max (- 10000000) vf < vl" "- 10000000 < vf"
    | (n) "\<not> max (max (- 10000000) vf) vl < vr" "\<not> max (- 10000000) vf < vl"
        "\<not> - 10000000 < vf"
    by blast
  then show ?thesis
  proof cases
    case r
    have look: "lookup_action action_table s = Inr (Some (0, - 1))"
      by (simp only: lk r if_True)
    from r have b: "- 10000000 < vr" "vf \<le> vr" "vl \<le> vr" by linarith+
    show ?thesis by (rule chosen[OF look mem(3) nr b order_refl])
  next
    case l
    have look: "lookup_action action_table s = Inr (Some (0, 1))"
      by (simp only: lk l if_True if_False)
    from l have b: "- 10000000 < vl" "vf \<le> vl" "vr \<le> vl" by linarith+
    show ?thesis by (rule chosen[OF look mem(2) nl b(1,2) order_refl b(3)])
  next
    case f
    have look: "lookup_action action_table s = Inr (Some (1, 0))"
      by (simp only: lk f if_True if_False)
    from f have b: "- 10000000 < vf" "vl \<le> vf" "vr \<le> vf" by linarith+
    show ?thesis by (rule chosen[OF look mem(1) nf b(1) order_refl b(2,3)])
  next
    case n
    have look: "lookup_action action_table s = Inr None"
      by (simp only: lk n if_True if_False)
    from n have b: "vf \<le> - 10000000" "vl \<le> - 10000000" "vr \<le> - 10000000"
      by linarith+
    show ?thesis
    proof (intro exI[of _ v] exI[of _ None] conjI)
      show "value_iteration self = Inr v" by (rule v)
      show "lookup_action action_table s = Inr None" by (rule look)
      show "case None of
         Some a \<Rightarrow> a \<in> set mdp_actions
           \<and> (\<exists>v'. next_state_value self v s a = Inr v' \<and> - 10000000 < v'
                 \<and> (\<forall>b\<in>set mdp_actions.
                       \<exists>u. next_state_value self v s b = Inr u \<and> u \<le> v'))
       | None \<Rightarrow> (\<forall>b\<in>set mdp_actions.
                     \<exists>u. next_state_value self v s b = Inr u \<and> u \<le> - 10000000)"
        unfolding option.case by (rule all[OF b])
    qed
  qed
qed

section \<open>Value iteration: invariants of the sweeps\<close>

lemma sweep_invariant:
  assumes "\<And>V s V'. s \<in> set ss \<Longrightarrow> Q V \<Longrightarrow> update_state self V s = Inr V' \<Longrightarrow> Q V'"
    and "Q V" and "sweep self ss V = Inr V'"
  shows "Q V'"
  using assms
proof (induction ss arbitrary: V)
  case Nil
  then show ?case by simp
next
  case (Cons s ss)
  from Cons.prems(3) obtain V1 where
    u: "update_state self V s = Inr V1" and r: "sweep self ss V1 = Inr V'"
    by (auto simp: err_bind_eq_Inr)
  have "Q V1" by (rule Cons.prems(1)[OF _ Cons.prems(2) u]) simp
  show ?case by (rule Cons.IH[OF _ \<open>Q V1\<close> r]) (rule Cons.prems(1), simp_all)
qed

lemma value_sweeps_invariant:
  assumes "\<And>V s V'. s \<in> set ss \<Longrightarrow> Q V \<Longrightarrow> update_state self V s = Inr V' \<Longrightarrow> Q V'"
    and "Q V" and "value_sweeps self ss n V = Inr V'"
  shows "Q V'"
  using assms(2,3)
proof (induction n arbitrary: V)
  case 0
  then show ?case by simp
next
  case (Suc n)
  from Suc.prems(2) obtain V1 where
    s: "sweep self ss V = Inr V1" and r: "value_sweeps self ss n V1 = Inr V'"
    by (auto simp: err_bind_eq_Inr)
  have "Q V1" by (rule sweep_invariant[where Q = Q, OF assms(1) Suc.prems(1) s])
  then show ?case by (rule Suc.IH[OF _ r])
qed

lemma fold_init_lookup:
  "fold (\<lambda>state values. values(state \<mapsto> c)) ss m s
   = (if s \<in> set ss then Some c else m s)"
  by (induction ss arbitrary: m) auto

lemma initial_values_zero: "initial_values ss s = Some v \<Longrightarrow> v = 0"
  unfolding initial_values_def fold_init_lookup by (simp split: if_splits)

lemma next_value_ge:
  assumes "values_ge L values" and "L \<le> crash_penalty"
    and "get_next_state_value values ns = Inr u"
  shows "L \<le> u"
  using assms by (auto simp: get_next_state_value_def values_ge_def split: option.splits)

lemma move_value_ge:
  assumes "values_ge L values" and "L \<le> crash_penalty"
    and "err_bind (discrete_motion_predict self x y h v w) (get_next_state_value values) = Inr u"
  shows "L \<le> u"
proof -
  from assms(3) obtain ns where "get_next_state_value values ns = Inr u"
    by (auto simp: err_bind_eq_Inr)
  from next_value_ge[OF assms(1,2) this] show ?thesis .
qed

lemma forward_value_parts:
  assumes "get_forward_action_value self values (x, y, h) = Inr u"
  shows "\<exists>v1 v2 v3.
           err_bind (discrete_motion_predict self x y h 1 0) (get_next_state_value values) = Inr v1
           \<and> err_bind (discrete_motion_predict self x y h (pi / 2) 1)
                (get_next_state_value values) = Inr v2
           \<and> err_bind (discrete_motion_predict self x y h (pi / 2) (- 1))
                (get_next_state_value values) = Inr v3
           \<and> u = v1 * (9 / 10) + v2 * (5 / 100) + v3 * (5 / 100)"
proof -
  from assms[unfolded get_forward_action_value_def prod.case err_bind_eq_Inr]
  obtain s1 v1 s2 v2 s3 v3 where
    a: "discrete_motion_predict self x y h 1 0 = Inr s1"
    "get_next_state_value values s1 = Inr v1"
    "discrete_motion_predict self x y h (pi / 2) 1 = Inr s2"
    "get_next_state_value values s2 = Inr v2"
    "discrete_motion_predict self x y h (pi / 2) (- 1) = Inr s3"
    "get_next_state_value values s3 = Inr v3"
    and u: "Inr (0 + v1 * (9 / 10) + v2 * (5 / 100) + v3 * (5 / 100)) = (Inr u :: error + real)"
    by blast
  from u have "u = v1 * (9 / 10) + v2 * (5 / 100) + v3 * (5 / 100)" by simp
  moreover have "err_bind (discrete_motion_predict self x y h 1 0)
      (get_next_state_value values) = Inr v1" by (simp add: a)
  moreover have "err_bind (discrete_motion_predict self x y h (pi / 2) 1)
      (get_next_state_value values) = Inr v2" by (simp add: a)
  moreover have "err_bind (discrete_motion_predict self x y h (pi / 2) (- 1))
      (get_next_state_value values) = Inr v3" by (simp add: a)
  ultimately show ?thesis by blast
qed

lemma forward_value_ge:
  assumes "values_ge L values" and "L \<le> crash_penalty"
    and "get_forward_action_value self values (x, y, h) = Inr u"
  shows "L \<le> u"
proof -
  from forward_value_parts[OF assms(3)] obtain v1 v2 v3 where
    p: "err_bind (discrete_motion_predict self x y h 1 0) (get_next_state_value values) = Inr v1"
    "err_bind (discrete_motion_predict self x y h (pi / 2) 1) (get_next_state_value values)
       = Inr v2"
    "err_bind (discrete_motion_predict self x y h (pi / 2) (- 1)) (get_next_state_value values)
       = Inr v3"
    and u: "u = v1 * (9 / 10) + v2 * (5 / 100) + v3 * (5 / 100)" by blast
  from move_value_ge[OF assms(1,2) p(1)] move_value_ge[OF assms(1,2) p(2)]
    move_value_ge[OF assms(1,2) p(3)]
  have "L \<le> v1" "L \<le> v2" "L \<le> v3" .
  then show ?thesis unfolding u by linarith
qed

lemma next_state_value_ge:
  assumes "values_ge L values" and "L \<le> crash_penalty"
    and "next_state_value self values s a = Inr u"
  shows "L \<le> u"
proof -
  obtain x y h where s: "s = (x, y, h)" by (cases s) auto
  show ?thesis
  proof (cases "a = (0, 1) \<or> a = (0, - 1)")
    case True
    with assms(3) have "err_bind (discrete_motion_predict self x y h (of_int (fst a)) (snd a))
                (get_next_state_value values) = Inr u"
      unfolding next_state_value_def s by simp
    from move_value_ge[OF assms(1,2) this] show ?thesis .
  next
    case False
    with assms(3) have "get_forward_action_value self values (x, y, h) = Inr u"
      unfolding next_state_value_def s by simp
    from forward_value_ge[OF assms(1,2) this] show ?thesis .
  qed
qed

lemma bellman_loop_mono:
  "bellman_loop self values s actions acc = Inr r \<Longrightarrow> acc \<le> r"
proof (induction actions arbitrary: acc)
  case Nil
  then show ?case by simp
next
  case (Cons a actions)
  from Cons.prems[unfolded bellman_loop.simps err_bind_eq_Inr Let_def] obtain c u where
    "bellman_loop self values s actions
       (if acc < c + 95 / 100 * u then c + 95 / 100 * u else acc) = Inr r"
    by blast
  from Cons.IH[OF this] show ?case by (simp split: if_splits)
qed

lemma bellman_loop_first:
  assumes "bellman_loop self values s (a # actions) acc = Inr r"
  shows "\<exists>c u. get_current_state_value self s = Inr c
           \<and> next_state_value self values s a = Inr u \<and> c + 95 / 100 * u \<le> r"
proof -
  from assms[unfolded bellman_loop.simps err_bind_eq_Inr Let_def] obtain c u where
    c: "get_current_state_value self s = Inr c"
    and u: "next_state_value self values s a = Inr u"
    and r: "bellman_loop self values s actions
       (if acc < c + 95 / 100 * u then c + 95 / 100 * u else acc) = Inr r"
    by blast
  from bellman_loop_mono[OF r] have "c + 95 / 100 * u \<le> r" by (simp split: if_splits)
  with c u show ?thesis by blast
qed

lemma current_value_ge:
  assumes "d_from_goal self (of_int x) (of_int y) / distance_penalty_normalization self \<le> 20"
    and "get_current_state_value self (x, y, h) = Inr c"
  shows "- 20 \<le> c"
  using assms
  by (auto simp: get_current_state_value_def err_bind_eq_Inr crash_penalty_def
           split: if_splits)

lemma update_state_bounded:
  assumes "d_from_goal self (of_int (fst s)) (of_int (fst (snd s)))
             / distance_penalty_normalization self \<le> 20"
    and "values_ge (- 400) V" and "update_state self V s = Inr V'"
  shows "values_ge (- 400) V'"
proof -
  obtain x y h where s: "s = (x, y, h)" by (cases s) auto
  from assms(3) obtain r where
    r: "bellman_loop self V s mdp_actions (- 10000000) = Inr r" and V': "V' = V(s \<mapsto> r)"
    by (auto simp: update_state_def err_bind_eq_Inr)
  from bellman_loop_first[OF r[unfolded mdp_actions_def]] obtain c u where
    c: "get_current_state_value self s = Inr c"
    and u: "next_state_value self V s (1, 0) = Inr u" and le: "c + 95 / 100 * u \<le> r" by blast
  have "- 400 \<le> u"
    by (rule next_state_value_ge[OF assms(2) _ u]) (simp add: crash_penalty_def)
  moreover have "- 20 \<le> c" using current_value_ge[of self x y h c] assms(1) c s by simp
  ultimately have "- 400 \<le> r" using le by linarith
  then show ?thesis using assms(2) unfolding V' values_ge_def by auto
qed

lemma value_iteration_bounded:
  assumes "\<forall>s\<in>set (mdp_states self).
             d_from_goal self (of_int (fst s)) (of_int (fst (snd s)))
               / distance_penalty_normalization self \<le> 20"
    and "value_iteration self = Inr V"
  shows "values_ge (- 400) V"
proof -
  have init: "values_ge (- 400) (initial_values (mdp_states self))"
    unfolding values_ge_def using initial_values_zero by fastforce
  show ?thesis
  proof (rule value_sweeps_invariant[where Q = "values_ge (- 400)", OF _ init
        assms(2)[unfolded value_iteration_def]])
    fix V s V'
    assume "s \<in> set (mdp_states self)" "values_ge (- 400) V" "update_state self V s = Inr V'"
    with assms(1) show "values_ge (- 400) V'" using update_state_bounded by blast
  qed
qed

section \<open>Value iteration with a goal far outside the map\<close>

lemma next_value_le:
  assumes "values_le 0 values" and "get_next_state_value values ns = Inr u"
  shows "u \<le> 0"
  using assms
  by (auto simp: get_next_state_value_def values_le_def crash_penalty_def split: option.splits)

lemma move_value_le:
  assumes "values_le 0 values"
    and "err_bind (discrete_motion_predict self x y h v w) (get_next_state_value values) = Inr u"
  shows "u \<le> 0"
proof -
  from assms(2) obtain ns where "get_next_state_value values ns = Inr u"
    by (auto simp: err_bind_eq_Inr)
  from next_value_le[OF assms(1) this] show ?thesis .
qed

lemma next_state_value_le:
  assumes "values_le 0 values" and "next_state_value self values s a = Inr u"
  shows "u \<le> 0"
proof -
  obtain x y h where s: "s = (x, y, h)" by (cases s) auto
  show ?thesis
  proof (cases "a = (0, 1) \<or> a = (0, - 1)")
    case True
    with assms(2) have "err_bind (discrete_motion_predict self x y h (of_int (fst a)) (snd a))
                (get_next_state_value values) = Inr u"
      unfolding next_state_value_def s by simp
    from move_value_le[OF assms(1) this] show ?thesis .
  next
    case False
    with assms(2) have "get_forward_action_value self values (x, y, h) = Inr u"
      unfolding next_state_value_def s by simp
    from forward_value_parts[OF this] obtain v1 v2 v3 where
      p: "err_bind (discrete_motion_predict self x y h 1 0) (get_next_state_value values)
            = Inr v1"
      "err_bind (discrete_motion_predict self x y h (pi / 2) 1) (get_next_state_value values)
         = Inr v2"
      "err_bind (discrete_motion_predict self x y h (pi / 2) (- 1))
         (get_next_state_value values) = Inr v3"
      and u: "u = v1 * (9 / 10) + v2 * (5 / 100) + v3 * (5 / 100)" by blast
    from move_value_le[OF assms(1) p(1)] move_value_le[OF assms(1) p(2)]
      move_value_le[OF assms(1) p(3)]
    have "v1 \<le> 0" "v2 \<le> 0" "v3 \<le> 0" .
    then show ?thesis unfolding u by linarith
  qed
qed

lemma bellman_loop_upper:
  assumes "values_le 0 values" and "get_current_state_value self s = Inr c"
    and "bellman_loop self values s actions acc = Inr r"
  shows "r \<le> max acc c"
  using assms(3)
proof (induction actions arbitrary: acc)
  case Nil
  then show ?case by simp
next
  case (Cons a actions)
  from Cons.prems[unfolded bellman_loop.simps err_bind_eq_Inr Let_def] obtain c' u where
    c': "get_current_state_value self s = Inr c'"
    and u: "next_state_value self values s a = Inr u"
    and r: "bellman_loop self values s actions
       (if acc < c' + 95 / 100 * u then c' + 95 / 100 * u else acc) = Inr r"
    by blast
  from c' assms(2) have cc: "c' = c" by simp
  from next_state_value_le[OF assms(1) u] have "u \<le> 0" .
  then have "c + 95 / 100 * u \<le> c" by simp
  with Cons.IH[OF r] show ?case unfolding cc by (simp split: if_splits)
qed

lemma far_goal_reward:
  assumes "far_goal self" and "s \<in> set (mdp_states self)"
    and "get_current_state_value self s = Inr c"
  shows "c \<le> 0 \<and> (free_state self s \<longrightarrow> c \<le> - 10000000)"
proof -
  obtain x y h where s: "s = (x, y, h)" by (cases s) auto
  from assms(1,2) have ng: "\<not> check_goal self (of_int x) (of_int y)"
    and far: "10000000 \<le> d_from_goal self (of_int x) (of_int y)
                / distance_penalty_normalization self"
    unfolding far_goal_def s by auto
  from assms(3) obtain hit where hit: "collision_checker_DSPA self (of_int x) (of_int y) = Inr hit"
    unfolding get_current_state_value_def s by (auto simp: err_bind_eq_Inr)
  show ?thesis
  proof (cases hit)
    case True
    with hit assms(3) have "c = - 20"
      unfolding get_current_state_value_def s by (simp add: crash_penalty_def)
    with True hit show ?thesis by (simp add: free_state_def s)
  next
    case False
    with hit assms(3) ng have "c = - (d_from_goal self (of_int x) (of_int y)
                / distance_penalty_normalization self)"
      unfolding get_current_state_value_def s by (simp split: if_splits)
    with far show ?thesis by simp
  qed
qed

lemma update_state_settled:
  assumes "far_goal self" and "s \<in> set (mdp_states self)"
    and "settled self P V" and "update_state self V s = Inr V'"
  shows "settled self (insert s P) V'"
proof -
  from assms(3) have le: "values_le 0 V"
    and P: "\<forall>t\<in>P. free_state self t \<longrightarrow> V t = Some (- 10000000)"
    by (simp_all add: settled_def)
  from assms(4) obtain r where
    r: "bellman_loop self V s mdp_actions (- 10000000) = Inr r" and V': "V' = V(s \<mapsto> r)"
    by (auto simp: update_state_def err_bind_eq_Inr)
  from bellman_loop_first[OF r[unfolded mdp_actions_def]] obtain c where
    c: "get_current_state_value self s = Inr c" by blast
  from far_goal_reward[OF assms(1,2) c] have c0: "c \<le> 0"
    and cf: "free_state self s \<longrightarrow> c \<le> - 10000000" by blast+
  from bellman_loop_upper[OF le c r] have up: "r \<le> max (- 10000000) c" .
  from bellman_loop_mono[OF r] have lo: "- 10000000 \<le> r" .
  from up c0 have r0: "r \<le> 0" by linarith
  have rf: "free_state self s \<longrightarrow> r = - 10000000" using cf up lo by linarith
  have "values_le 0 V'" using le r0 unfolding V' values_le_def by auto
  moreover have "\<forall>t\<in>insert s P. free_state self t \<longrightarrow> V' t = Some (- 10000000)"
    using P rf unfolding V' by auto
  ultimately show ?thesis by (simp add: settled_def)
qed

lemma sweep_settled:
  assumes "far_goal self" and "set ss \<subseteq> set (mdp_states self)"
    and "settled self P V" and "sweep self ss V = Inr V'"
  shows "settled self (P \<union> set ss) V'"
  using assms(2,3,4)
proof (induction ss arbitrary: V P)
  case Nil
  then show ?case by simp
next
  case (Cons s ss)
  from Cons.prems(3) obtain V1 where
    u: "update_state self V s = Inr V1" and r: "sweep self ss V1 = Inr V'"
    by (auto simp: err_bind_eq_Inr)
  from Cons.prems(1) have s: "s \<in> set (mdp_states self)" and ss: "set ss \<subseteq> set (mdp_states self)"
    by simp_all
  from update_state_settled[OF assms(1) s Cons.prems(2) u]
  have "settled self (insert s P) V1" .
  from Cons.IH[OF ss this r] show ?case by simp
qed

lemma value_sweeps_settled:
  assumes "far_goal self" and "settled self (set (mdp_states self)) V"
    and "value_sweeps self (mdp_states self) n V = Inr V'"
  shows "settled self (set (mdp_states self)) V'"
  using assms(2,3)
proof (induction n arbitrary: V)
  case 0
  then show ?case by simp
next
  case (Suc n)
  from Suc.prems(2) obtain V1 where
    s: "sweep self (mdp_states self) V = Inr V1"
    and r: "value_sweeps self (mdp_states self) n V1 = Inr V'"
    by (auto simp: err_bind_eq_Inr)
  from sweep_settled[OF assms(1) subset_refl Suc.prems(1) s]
  have "settled self (set (mdp_states self)) V1" by simp
  from Suc.IH[OF this r] show ?case .
qed

lemma value_iteration_settled:
  assumes "far_goal self" and "value_iteration self = Inr V"
  shows "settled self (set (mdp_states self)) V"
proof -
  obtain n where n: "sweep_count self = Suc n"
    by (cases "sweep_count self") (auto simp: sweep_count_def split: if_splits)
  from assms(2)[unfolded value_iteration_def n] obtain V1 where
    s: "sweep self (mdp_states self) (initial_values (mdp_states self)) = Inr V1"
    and r: "value_sweeps self (mdp_states self) n V1 = Inr V"
    by (auto simp: err_bind_eq_Inr)
  have "settled self {} (initial_values (mdp_states self))"
    unfolding settled_def values_le_def using initial_values_zero by fastforce
  from sweep_settled[OF assms(1) subset_refl this s]
  have "settled self (set (mdp_states self)) V1" by simp
  from value_sweeps_settled[OF assms(1) this r] show ?thesis .
qed

lemma settled_move_value:
  assumes "good_planner self" and "(x, y, h) \<in> set (mdp_states self)" and "valid_move v w"
    and "settled self (set (mdp_states self)) V"
    and "discrete_motion_predict self x y h v w \<noteq> Inr None"
  shows "err_bind (discrete_motion_predict self x y h v w) (get_next_state_value V)
         = Inr (- 10000000)"
proof -
  from move_outcome[OF assms(1,2,3)] assms(5) obtain s' where
    s': "discrete_motion_predict self x y h v w = Inr (Some s')"
    "s' \<in> set (mdp_states self)"
    "collision_checker_DSPA self (of_int (fst s')) (of_int (fst (snd s'))) = Inr False"
    by blast
  from assms(4) s'(2,3) have "V s' = Some (- 10000000)"
    by (simp add: settled_def free_state_def)
  with s'(1) show ?thesis by (simp add: get_next_state_value_def)
qed

lemma settled_next_state_value:
  assumes "good_planner self" and "s \<in> set (mdp_states self)"
    and "settled self (set (mdp_states self)) V" and "open_state self s"
    and "a \<in> set mdp_actions"
  shows "next_state_value self V s a = Inr (- 10000000)"
proof -
  obtain x y h where s: "s = (x, y, h)" by (cases s) auto
  note st = assms(2)[unfolded s]
  from assms(4) have o:
    "discrete_motion_predict self x y h 1 0 \<noteq> Inr None"
    "discrete_motion_predict self x y h (pi / 2) 1 \<noteq> Inr None"
    "discrete_motion_predict self x y h (pi / 2) (- 1) \<noteq> Inr None"
    "discrete_motion_predict self x y h 0 1 \<noteq> Inr None"
    "discrete_motion_predict self x y h 0 (- 1) \<noteq> Inr None"
    unfolding open_state_def s by simp_all
  note mv = settled_move_value[OF assms(1) st _ assms(3)]
  from assms(5) consider "a = (1, 0)" | "a = (0, 1)" | "a = (0, - 1)"
    by (auto simp: mdp_actions_def)
  then show ?thesis
  proof cases
    case 1
    have "get_forward_action_value self V (x, y, h) = Inr (- 10000000)"
      unfolding get_forward_action_value_def prod.case
      using mv[OF valid_moves(1) o(1)] mv[OF valid_moves(2) o(2)] mv[OF valid_moves(3) o(3)]
      by (auto simp: err_bind_eq_Inr)
    with 1 show ?thesis by (simp add: next_state_value_def s)
  next
    case 2
    with mv[OF valid_moves(4) o(4)] show ?thesis by (simp add: next_state_value_def s)
  next
    case 3
    with mv[OF valid_moves(5) o(5)] show ?thesis by (simp add: next_state_value_def s)
  qed
qed

lemma far_goal_plan_lookup:
  assumes "good_planner self" and "far_goal self" and "s \<in> set (mdp_states self)"
    and "open_state self s"
  shows "plan_lookup self s = Inr None
         \<and> err_bind (value_iteration self) (\<lambda>values. next_state_value self values s (1, 0))
             = Inr (- 10000000)"
proof -
  from generate_plan_total[OF assms(1)] obtain table where
    t: "generate_plan self = Inr table" by blast
  from generate_plan_lookup[OF t assms(3)] obtain V vf vl vr where
    V: "value_iteration self = Inr V"
    and nf: "next_state_value self V s (1, 0) = Inr vf"
    and nl: "next_state_value self V s (0, 1) = Inr vl"
    and nr: "next_state_value self V s (0, - 1) = Inr vr"
    and lk: "lookup_action table s =
                Inr (if max (max (- 10000000) vf) vl < vr then Some (0, - 1)
                     else if max (- 10000000) vf < vl then Some (0, 1)
                     else if - 10000000 < vf then Some (1, 0)
                     else None)" by blast
  note st = value_iteration_settled[OF assms(2) V]
  have mem: "(1, 0) \<in> set mdp_actions" "(0, 1) \<in> set mdp_actions"
    "(0, - 1) \<in> set mdp_actions" by (simp_all add: mdp_actions_def)
  from settled_next_state_value[OF assms(1,3) st assms(4) mem(1)] nf
  have vf: "vf = - 10000000" by simp
  from settled_next_state_value[OF assms(1,3) st assms(4) mem(2)] nl
  have vl: "vl = - 10000000" by simp
  from settled_next_state_value[OF assms(1,3) st assms(4) mem(3)] nr
  have vr: "vr = - 10000000" by simp
  have "lookup_action table s = Inr None" unfolding lk vf vl vr by simp
  then have "plan_lookup self s = Inr None" by (simp add: plan_lookup_def t)
  moreover have "err_bind (value_iteration self)
      (\<lambda>values. next_state_value self values s (1, 0)) = Inr (- 10000000)"
    using V nf vf by simp
  ultimately show ?thesis by blast
qed

section \<open>Moves inside a free region\<close>

lemma sin_diff_le: "\<bar>sin a - sin b\<bar> \<le> (2::real)"
  using abs_sin_le_one[of a] abs_sin_le_one[of b] by linarith

lemma cos_diff_le: "\<bar>cos a - cos b\<bar> \<le> (2::real)"
  using abs_cos_le_one[of a] abs_cos_le_one[of b] by linarith

lemma motion_predict_DSPA_box:
  fixes m R :: real
  assumes box: "\<forall>px py. \<bar>px - cx\<bar> \<le> R \<and> \<bar>py - cy\<bar> \<le> R
                  \<longrightarrow> collision_checker_DSPA self px py = Inr False"
    and m: "m = (if w = 0 then \<bar>v\<bar> / 2 else 2 * \<bar>v / w\<bar>)"
    and x: "\<bar>x - cx\<bar> + m \<le> R" and y: "\<bar>y - cy\<bar> + m \<le> R"
  shows "\<exists>x' y' t'. motion_predict_DSPA self x y theta v w = Inr (Some (x', y', t'))
           \<and> \<bar>x' - x\<bar> \<le> m \<and> \<bar>y' - y\<bar> \<le> m"
proof (cases "w = 0")
  case True
  have m': "m = \<bar>v\<bar> / 2" using m True by simp
  have bx: "\<bar>real k * (v * cos theta / 10)\<bar> \<le> m" if "k \<le> 5" for k :: nat
  proof -
    have "\<bar>real k * (v * cos theta / 10)\<bar> = real k / 10 * (\<bar>v\<bar> * \<bar>cos theta\<bar>)"
      by (simp add: abs_mult)
    also have "\<dots> \<le> 5 / 10 * (\<bar>v\<bar> * 1)"
      using that abs_cos_le_one[of theta]
      by (intro mult_mono mult_left_mono) simp_all
    finally show ?thesis unfolding m' by simp
  qed
  have by': "\<bar>real k * (v * sin theta / 10)\<bar> \<le> m" if "k \<le> 5" for k :: nat
  proof -
    have "\<bar>real k * (v * sin theta / 10)\<bar> = real k / 10 * (\<bar>v\<bar> * \<bar>sin theta\<bar>)"
      by (simp add: abs_mult)
    also have "\<dots> \<le> 5 / 10 * (\<bar>v\<bar> * 1)"
      using that abs_sin_le_one[of theta]
      by (intro mult_mono mult_left_mono) simp_all
    finally show ?thesis unfolding m' by simp
  qed
  have free: "\<forall>k\<in>{1..5::nat}.
      collision_checker_DSPA self (x + of_nat k * (v * cos theta / 10))
        (y + of_nat k * (v * sin theta / 10)) = Inr False"
  proof
    fix k :: nat assume "k \<in> {1..5}"
    then have k: "k \<le> 5" by simp
    from bx[OF k] x have "\<bar>x + of_nat k * (v * cos theta / 10) - cx\<bar> \<le> R" by linarith
    moreover from by'[OF k] y have "\<bar>y + of_nat k * (v * sin theta / 10) - cy\<bar> \<le> R"
      by linarith
    ultimately show "collision_checker_DSPA self (x + of_nat k * (v * cos theta / 10))
        (y + of_nat k * (v * sin theta / 10)) = Inr False"
      using box by blast
  qed
  have "motion_predict_DSPA self x y theta v w
        = Inr (Some (x + of_nat 5 * (v * cos theta / 10), y + of_nat 5 * (v * sin theta / 10),
                     theta))"
    unfolding motion_predict_DSPA_def motion_predict_def num_steps_default True
    by (rule motion_steps_straight[OF free])
  moreover have "\<bar>(x + of_nat 5 * (v * cos theta / 10)) - x\<bar> \<le> m"
    using bx[of 5] by simp
  moreover have "\<bar>(y + of_nat 5 * (v * sin theta / 10)) - y\<bar> \<le> m"
    using by'[of 5] by simp
  ultimately show ?thesis by blast
next
  case False
  have m': "m = 2 * \<bar>v / w\<bar>" using m False by simp
  have bs: "\<bar>v / w * (sin a - sin b)\<bar> \<le> m" for a b
  proof -
    have "\<bar>v / w * (sin a - sin b)\<bar> = \<bar>v / w\<bar> * \<bar>sin a - sin b\<bar>" by (simp add: abs_mult)
    also have "\<dots> \<le> \<bar>v / w\<bar> * 2" by (intro mult_left_mono sin_diff_le) simp
    finally show ?thesis unfolding m' by (simp only: mult.commute[of 2])
  qed
  have bc: "\<bar>v / w * (cos a - cos b)\<bar> \<le> m" for a b
  proof -
    have "\<bar>v / w * (cos a - cos b)\<bar> = \<bar>v / w\<bar> * \<bar>cos a - cos b\<bar>" by (simp add: abs_mult)
    also have "\<dots> \<le> \<bar>v / w\<bar> * 2" by (intro mult_left_mono cos_diff_le) simp
    finally show ?thesis unfolding m' by (simp only: mult.commute[of 2])
  qed
  have free: "\<forall>j\<in>{1..5::nat}.
      collision_checker_DSPA self (x + v / w * (sin (theta + of_nat j * (w / 10)) - sin theta))
        (y - v / w * (cos (theta + of_nat j * (w / 10)) - cos theta)) = Inr False"
  proof
    fix j :: nat assume "j \<in> {1..5}"
    from bs[of "theta + of_nat j * (w / 10)" theta] x
    have "\<bar>x + v / w * (sin (theta + of_nat j * (w / 10)) - sin theta) - cx\<bar> \<le> R"
      by linarith
    moreover from bc[of "theta + of_nat j * (w / 10)" theta] y
    have "\<bar>y - v / w * (cos (theta + of_nat j * (w / 10)) - cos theta) - cy\<bar> \<le> R"
      by linarith
    ultimately show "collision_checker_DSPA self
        (x + v / w * (sin (theta + of_nat j * (w / 10)) - sin theta))
        (y - v / w * (cos (theta + of_nat j * (w / 10)) - cos theta)) = Inr False"
      using box by blast
  qed
  have "motion_predict_DSPA self x y theta v w
        = Inr (Some (x + v / w * (sin (theta + of_nat 5 * (w / 10)) - sin theta),
                     y - v / w * (cos (theta + of_nat 5 * (w / 10)) - cos theta),
                     theta + of_nat 5 * (w / 10)))"
    unfolding motion_predict_DSPA_def motion_predict_def num_steps_default
    by (rule motion_steps_free_arc[OF False free])
  moreover have "\<bar>(x + v / w * (sin (theta + of_nat 5 * (w / 10)) - sin theta)) - x\<bar> \<le> m"
    using bs[of "theta + of_nat 5 * (w / 10)" theta] by simp
  moreover have "\<bar>(y - v / w * (cos (theta + of_nat 5 * (w / 10)) - cos theta)) - y\<bar> \<le> m"
    using bc[of "theta + of_nat 5 * (w / 10)" theta] by simp
  ultimately show ?thesis by blast
qed

lemma discrete_motion_predict_box:
  fixes m R :: real
  assumes box: "\<forall>px py. \<bar>px - of_int x\<bar> \<le> R \<and> \<bar>py - of_int y\<bar> \<le> R
                  \<longrightarrow> collision_checker_DSPA self px py = Inr False"
    and m: "m = (if of_int w * pi / 2 = (0::real) then \<bar>v\<bar> / 2
                 else 2 * \<bar>v / (of_int w * pi / 2)\<bar>)"
    and R: "2 * m \<le> R"
  shows "discrete_motion_predict self x y h v w \<noteq> Inr None"
proof -
  have m0: "0 \<le> m" unfolding m by simp
  have s0: "\<bar>of_int x - of_int x\<bar> + m \<le> R" "\<bar>of_int y - of_int y\<bar> + m \<le> R"
    using R m0 by simp_all
  from motion_predict_DSPA_box[OF box m s0, of "of_int h * pi / 2"]
  obtain x1 y1 t1 where
    one: "motion_predict_DSPA self (of_int x) (of_int y) (of_int h * pi / 2) v (of_int w * pi / 2)
            = Inr (Some (x1, y1, t1))"
    and b1: "\<bar>x1 - of_int x\<bar> \<le> m" "\<bar>y1 - of_int y\<bar> \<le> m" by blast
  have s1: "\<bar>x1 - of_int x\<bar> + m \<le> R" "\<bar>y1 - of_int y\<bar> + m \<le> R"
    using b1 R by linarith+
  from motion_predict_DSPA_box[OF box m s1, of t1]
  obtain x2 y2 t2 where
    two: "motion_predict_DSPA self x1 y1 t1 v (of_int w * pi / 2) = Inr (Some (x2, y2, t2))"
    by blast
  have "discrete_motion_predict self x y h v w
        = Inr (Some (py_round x2, py_round y2, py_round (t2 / (pi / 2)) mod 4))"
    unfolding discrete_motion_predict_def Let_def one by (simp add: err_bind_def two)
  then show ?thesis by simp
qed

lemma open_state_box:
  assumes "\<forall>px py. \<bar>px - of_int x\<bar> \<le> 4 \<and> \<bar>py - of_int y\<bar> \<le> 4
             \<longrightarrow> collision_checker_DSPA self px py = Inr False"
  shows "open_state self (x, y, h)"
proof -
  have a: "discrete_motion_predict self x y h 1 0 \<noteq> Inr None"
    by (rule discrete_motion_predict_box[OF assms refl]) simp
  have b: "discrete_motion_predict self x y h (pi / 2) 1 \<noteq> Inr None"
    by (rule discrete_motion_predict_box[OF assms refl]) simp
  have c: "discrete_motion_predict self x y h (pi / 2) (- 1) \<noteq> Inr None"
    by (rule discrete_motion_predict_box[OF assms refl]) simp
  have d: "discrete_motion_predict self x y h 0 1 \<noteq> Inr None"
    by (rule discrete_motion_predict_box[OF assms refl]) simp
  have e: "discrete_motion_predict self x y h 0 (- 1) \<noteq> Inr None"
    by (rule discrete_motion_predict_box[OF assms refl]) simp
  from a b c d e show ?thesis by (simp add: open_state_def)
qed

section \<open>The default world\<close>

lemma default_map_free:
  assumes "10 \<le> r" "r < 189" "10 \<le> c" "c < 189"
  shows "inflate 200 200 10 (replicate 200 (replicate 200 0)) ! r ! c = 0"
proof -
  let ?m = "replicate 200 (replicate 200 0) :: grid"
  have wf: "wf_grid 200 200 ?m" by (simp add: wf_grid_def)
  have r: "r < 200" and c: "c < 200" using assms by simp_all
  have no: "\<not> (\<exists>i<200. \<exists>ii<200. inflation_source 200 200 ?m i ii
                 \<and> in_window 200 10 i r \<and> in_window 200 10 ii c)"
  proof
    assume "\<exists>i<200. \<exists>ii<200. inflation_source 200 200 ?m i ii
                 \<and> in_window 200 10 i r \<and> in_window 200 10 ii c"
    then obtain i ii where i: "i < 200" "ii < 200"
      and s: "inflation_source 200 200 ?m i ii"
      and w: "in_window 200 10 i r" "in_window 200 10 ii c" by blast
    from i have "?m ! i ! ii = 0" by simp
    with s have "i = 0 \<or> i = 199 \<or> ii = 0 \<or> ii = 199" by (auto simp: inflation_source_def)
    with w assms show False by (auto simp: in_window_def)
  qed
  have raw: "?m ! r ! c = 0" using r c by simp
  from cell_inflate[OF wf r c, of 10] no raw show ?thesis by simp
qed

lemma default_world_good:
  "good_planner \<lparr>world_width = 200, world_height = 200, resolution = 1 / 20, com = False,
      aug_map = inflate 200 200 10 (replicate 200 (replicate 200 0)), goal = g\<rparr>"
proof -
  have "wf_grid 200 200 (inflate 200 200 10 (replicate 200 (replicate 200 0)))"
    by (rule wf_grid_inflate) (simp add: wf_grid_def)
  then show ?thesis by (simp add: good_planner_def)
qed

lemma default_world_free:
  assumes "\<bar>px - 5\<bar> \<le> 4" and "\<bar>py - 5\<bar> \<le> 4"
  shows "collision_checker_DSPA
           \<lparr>world_width = 200, world_height = 200, resolution = 1 / 20, com = False,
            aug_map = inflate 200 200 10 (replicate 200 (replicate 200 0)), goal = g\<rparr> px py
         = Inr False"
proof -
  let ?A = "inflate 200 200 10 (replicate 200 (replicate 200 0))"
  let ?P = "\<lparr>world_width = 200, world_height = 200, resolution = 1 / 20, com = False,
            aug_map = ?A, goal = g\<rparr>"
  have res: "0 < resolution ?P" by simp
  have wf: "wf_grid (world_height ?P) (world_width ?P) (aug_map ?P)"
    using default_world_good[of g] by (simp add: good_planner_def)
  have x: "1 \<le> px" "px \<le> 9" and y: "1 \<le> py" "py \<le> 9" using assms by linarith+
  define ix where "ix = py_int (px / (1 / 20))"
  define iy where "iy = py_int (py / (1 / 20))"
  have ix: "20 \<le> ix" "ix \<le> 180"
  proof -
    have "ix = \<lfloor>px * 20\<rfloor>" using x by (simp add: ix_def py_int_def)
    moreover have "20 \<le> \<lfloor>px * 20\<rfloor>" using x by (simp add: le_floor_iff)
    moreover have "\<lfloor>px * 20\<rfloor> \<le> 180" using x by (simp add: floor_le_iff)
    ultimately show "20 \<le> ix" "ix \<le> 180" by simp_all
  qed
  have iy: "20 \<le> iy" "iy \<le> 180"
  proof -
    have "iy = \<lfloor>py * 20\<rfloor>" using y by (simp add: iy_def py_int_def)
    moreover have "20 \<le> \<lfloor>py * 20\<rfloor>" using y by (simp add: le_floor_iff)
    moreover have "\<lfloor>py * 20\<rfloor> \<le> 180" using y by (simp add: floor_le_iff)
    ultimately show "20 \<le> iy" "iy \<le> 180" by simp_all
  qed
  have cell: "?A ! nat iy ! nat ix = 0"
    by (rule default_map_free) (use ix iy in simp_all)
  have ixn: "py_int (px * 20) = ix" and iyn: "py_int (py * 20) = iy"
    by (simp_all add: ix_def iy_def)
  show ?thesis
    unfolding collision_checker_DSPA_eq[OF res wf]
    using ix iy cell by (simp add: ixn iyn)
qed

lemma default_world_open:
  "open_state
     \<lparr>world_width = 200, world_height = 200, resolution = 1 / 20, com = False,
      aug_map = inflate 200 200 10 (replicate 200 (replicate 200 0)), goal = g\<rparr> (5, 5, h)"
proof (rule open_state_box, intro allI impI)
  fix px py :: real
  assume "\<bar>px - real_of_int 5\<bar> \<le> 4 \<and> \<bar>py - real_of_int 5\<bar> \<le> 4"
  then have "\<bar>px - 5\<bar> \<le> 4" "\<bar>py - 5\<bar> \<le> 4" by simp_all
  then show "collision_checker_DSPA
           \<lparr>world_width = 200, world_height = 200, resolution = 1 / 20, com = False,
            aug_map = inflate 200 200 10 (replicate 200 (replicate 200 0)), goal = g\<rparr> px py
         = Inr False"
    by (rule default_world_free)
qed

lemma default_world_states:
  "(x, y, h) \<in> set (mdp_states
      \<lparr>world_width = 200, world_height = 200, resolution = 1 / 20, com = False,
       aug_map = inflate 200 200 10 (replicate 200 (replicate 200 0)), goal = g\<rparr>)
   \<longleftrightarrow> 0 \<le> x \<and> x \<le> 10 \<and> 0 \<le> y \<and> y \<le> 10 \<and> 0 \<le> h \<and> h \<le> 3"
  unfolding mdp_states_iff by (simp add: py_int_def)

lemma default_world_far_goal:
  "far_goal \<lparr>world_width = 200, world_height = 200, resolution = 1 / 20, com = False,
      aug_map = inflate 200 200 10 (replicate 200 (replicate 200 0)),
      goal = (3000000000, 8)\<rparr>"
proof -
  let ?P = "\<lparr>world_width = 200, world_height = 200, resolution = 1 / 20, com = False,
      aug_map = inflate 200 200 10 (replicate 200 (replicate 200 0)),
      goal = (3000000000, 8)\<rparr>"
  have norm: "distance_penalty_normalization ?P = 200"
    by (simp add: distance_penalty_normalization_def)
  have "\<not> check_goal ?P (of_int (fst s)) (of_int (fst (snd s)))
        \<and> 10000000 \<le> d_from_goal ?P (of_int (fst s)) (of_int (fst (snd s)))
                         / distance_penalty_normalization ?P"
    if "s \<in> set (mdp_states ?P)" for s
  proof -
    obtain x y h where s: "s = (x, y, h)" by (cases s) auto
    from that have x: "0 \<le> x" "x \<le> 10" unfolding s default_world_states by simp_all
    have "3000000000 - real_of_int x
          \<le> sqrt ((3000000000 - real_of_int x)\<^sup>2 + (real_of_int y - 8)\<^sup>2)"
      by (rule real_sqrt_sum_squares_ge1)
    also have "\<dots> = d_from_goal ?P (of_int x) (of_int y)"
      by (simp add: d_from_goal_def power2_commute)
    finally have d: "3000000000 - real_of_int x \<le> d_from_goal ?P (of_int x) (of_int y)" .
    have "real_of_int x \<le> 10" using x by simp
    with d have big: "2999999990 \<le> d_from_goal ?P (of_int x) (of_int y)" by linarith
    then have "\<not> check_goal ?P (of_int x) (of_int y)" by (simp add: check_goal_def)
    moreover have "10000000 \<le> d_from_goal ?P (of_int x) (of_int y) / 200"
      using big by simp
    ultimately show ?thesis unfolding s norm by simp
  qed
  then show ?thesis unfolding far_goal_def by blast
qed

lemma default_world_near_goal:
  "\<forall>s\<in>set (mdp_states
       \<lparr>world_width = 200, world_height = 200, resolution = 1 / 20, com = False,
        aug_map = inflate 200 200 10 (replicate 200 (replicate 200 0)), goal = (1, 8)\<rparr>).
     d_from_goal
       \<lparr>world_width = 200, world_height = 200, resolution = 1 / 20, com = False,
        aug_map = inflate 200 200 10 (replicate 200 (replicate 200 0)), goal = (1, 8)\<rparr>
       (of_int (fst s)) (of_int (fst (snd s)))
     / distance_penalty_normalization
         \<lparr>world_width = 200, world_height = 200, resolution = 1 / 20, com = False,
          aug_map = inflate 200 200 10 (replicate 200 (replicate 200 0)), goal = (1, 8)\<rparr>
     \<le> 20"
proof
  let ?P = "\<lparr>world_width = 200, world_height = 200, resolution = 1 / 20, com = False,
        aug_map = inflate 200 200 10 (replicate 200 (replicate 200 0)), goal = (1, 8)\<rparr>"
  fix s assume mem: "s \<in> set (mdp_states ?P)"
  obtain x y h where s: "s = (x, y, h)" by (cases s) auto
  from mem have x: "0 \<le> x" "x \<le> 10" and y: "0 \<le> y" "y \<le> 10"
    unfolding s default_world_states by simp_all
  have norm: "distance_penalty_normalization ?P = 200"
    by (simp add: distance_penalty_normalization_def)
  have "d_from_goal ?P (of_int x) (of_int y)
        \<le> \<bar>real_of_int x - 1\<bar> + \<bar>real_of_int y - 8\<bar>"
    unfolding d_from_goal_def using sqrt_sum_squares_le_sum_abs[of "real_of_int x - 1"] by simp
  also have "\<dots> \<le> 9 + 8" using x y by (intro add_mono) simp_all
  finally have "d_from_goal ?P (of_int x) (of_int y) \<le> 17" by simp
  then show "d_from_goal ?P (of_int (fst s)) (of_int (fst (snd s)))
     / distance_penalty_normalization ?P \<le> 20"
    unfolding s norm by simp
qed

section \<open>Claims about the policy table\<close>

lemma bounded_goal_forward_value:
  assumes "\<forall>s\<in>set (mdp_states self).
             d_from_goal self (of_int (fst s)) (of_int (fst (snd s)))
               / distance_penalty_normalization self \<le> 20"
    and "value_iteration self = Inr V" and "next_state_value self V s (1, 0) = Inr vf"
  shows "- 400 \<le> vf"
  by (rule next_state_value_ge[OF value_iteration_bounded[OF assms(1,2)] _ assms(3)])
    (simp add: crash_penalty_def)

text \<open>
  C8 (as amended). After the value sweeps, for every state of the state space: an action
  recorded in the table is one of the three actions and maximises the expected
  next-state value alone (the deterministic next-state value for the two turns, the
  0.9 / 0.05 / 0.05 mixture for FORWARD, \<open>crash_penalty\<close> for a collided outcome), the reward
  of the state not being added; and an action is recorded whenever the expected
  next-state value of some action exceeds \<open>-10000000\<close>, the value at which the running maximum
  of the extraction starts.
\<close>

theorem policy_extraction_maximises_next_state_value:
  assumes "generate_plan self = Inr action_table" and "s \<in> set (mdp_states self)"
  shows "\<exists>values.
           value_iteration self = Inr values
           \<and> (\<forall>a. lookup_action action_table s = Inr (Some a) \<longrightarrow>
                  a \<in> set mdp_actions
                  \<and> (\<exists>v. next_state_value self values s a = Inr v
                        \<and> (\<forall>b\<in>set mdp_actions.
                              \<exists>u. next_state_value self values s b = Inr u \<and> u \<le> v)))
           \<and> ((\<exists>b\<in>set mdp_actions.
                  \<exists>u. next_state_value self values s b = Inr u \<and> - 10000000 < u)
                \<longrightarrow> (\<exists>a. lookup_action action_table s = Inr (Some a)))"
proof -
  from policy_extraction_cases[OF assms] obtain V best where
    v: "value_iteration self = Inr V"
    and lk: "lookup_action action_table s = Inr best"
    and c: "case best of
              Some a \<Rightarrow>
                a \<in> set mdp_actions
                \<and> (\<exists>v. next_state_value self V s a = Inr v \<and> - 10000000 < v
                      \<and> (\<forall>b\<in>set mdp_actions.
                            \<exists>u. next_state_value self V s b = Inr u \<and> u \<le> v))
            | None \<Rightarrow>
                (\<forall>b\<in>set mdp_actions.
                   \<exists>u. next_state_value self V s b = Inr u \<and> u \<le> - 10000000)"
    by blast
  show ?thesis
  proof (cases best)
    case None
    with c have all: "\<forall>b\<in>set mdp_actions.
        \<exists>u. next_state_value self V s b = Inr u \<and> u \<le> - 10000000" by simp
    have one: "\<forall>a. lookup_action action_table s = Inr (Some a) \<longrightarrow>
                  a \<in> set mdp_actions
                  \<and> (\<exists>v. next_state_value self V s a = Inr v
                        \<and> (\<forall>b\<in>set mdp_actions.
                              \<exists>u. next_state_value self V s b = Inr u \<and> u \<le> v))"
      using lk None by simp
    have two: "(\<exists>b\<in>set mdp_actions.
                  \<exists>u. next_state_value self V s b = Inr u \<and> - 10000000 < u)
                \<longrightarrow> (\<exists>a. lookup_action action_table s = Inr (Some a))"
    proof
      assume "\<exists>b\<in>set mdp_actions.
                  \<exists>u. next_state_value self V s b = Inr u \<and> - 10000000 < u"
      then obtain b u where b: "b \<in> set mdp_actions"
        and u: "next_state_value self V s b = Inr u" "- 10000000 < u" by blast
      from all b obtain u' where "next_state_value self V s b = Inr u'" "u' \<le> - 10000000"
        by blast
      with u have False by simp
      then show "\<exists>a. lookup_action action_table s = Inr (Some a)" ..
    qed
    from v one two show ?thesis by blast
  next
    case (Some a0)
    with c have a0: "a0 \<in> set mdp_actions"
      and mx: "\<exists>v. next_state_value self V s a0 = Inr v
                 \<and> (\<forall>b\<in>set mdp_actions.
                       \<exists>u. next_state_value self V s b = Inr u \<and> u \<le> v)"
      by auto
    have one: "\<forall>a. lookup_action action_table s = Inr (Some a) \<longrightarrow>
                  a \<in> set mdp_actions
                  \<and> (\<exists>v. next_state_value self V s a = Inr v
                        \<and> (\<forall>b\<in>set mdp_actions.
                              \<exists>u. next_state_value self V s b = Inr u \<and> u \<le> v))"
      using lk Some a0 mx by simp
    have two: "(\<exists>b\<in>set mdp_actions.
                  \<exists>u. next_state_value self V s b = Inr u \<and> - 10000000 < u)
                \<longrightarrow> (\<exists>a. lookup_action action_table s = Inr (Some a))"
      using lk Some by simp
    from v one two show ?thesis by blast
  qed
qed

theorem policy_extraction_maximises_next_state_value_witness:
  "\<exists>values a v.
     value_iteration
       \<lparr>world_width = 200, world_height = 200, resolution = 1 / 20, com = False,
        aug_map = inflate 200 200 10 (replicate 200 (replicate 200 0)), goal = (1, 8)\<rparr>
       = Inr values
     \<and> plan_lookup
         \<lparr>world_width = 200, world_height = 200, resolution = 1 / 20, com = False,
          aug_map = inflate 200 200 10 (replicate 200 (replicate 200 0)), goal = (1, 8)\<rparr>
         (5, 5, 0) = Inr (Some a)
     \<and> a \<in> set mdp_actions
     \<and> next_state_value
         \<lparr>world_width = 200, world_height = 200, resolution = 1 / 20, com = False,
          aug_map = inflate 200 200 10 (replicate 200 (replicate 200 0)), goal = (1, 8)\<rparr>
         values (5, 5, 0) a = Inr v
     \<and> - 400 \<le> v"
proof -
  let ?P = "\<lparr>world_width = 200, world_height = 200, resolution = 1 / 20, com = False,
        aug_map = inflate 200 200 10 (replicate 200 (replicate 200 0)), goal = (1, 8)\<rparr>"
  from generate_plan_total[OF default_world_good] obtain table where
    t: "generate_plan ?P = Inr table" by blast
  have s: "(5, 5, 0) \<in> set (mdp_states ?P)" unfolding default_world_states by simp
  from policy_extraction_maximises_next_state_value[OF t s] obtain V where
    v: "value_iteration ?P = Inr V"
    and one: "\<forall>a. lookup_action table (5, 5, 0) = Inr (Some a) \<longrightarrow>
                  a \<in> set mdp_actions
                  \<and> (\<exists>v. next_state_value ?P V (5, 5, 0) a = Inr v
                        \<and> (\<forall>b\<in>set mdp_actions.
                              \<exists>u. next_state_value ?P V (5, 5, 0) b = Inr u \<and> u \<le> v))"
    and two: "(\<exists>b\<in>set mdp_actions.
                  \<exists>u. next_state_value ?P V (5, 5, 0) b = Inr u \<and> - 10000000 < u)
                \<longrightarrow> (\<exists>a. lookup_action table (5, 5, 0) = Inr (Some a))"
    by blast
  from generate_plan_lookup[OF t s] v obtain vf where
    nf: "next_state_value ?P V (5, 5, 0) (1, 0) = Inr vf" by auto
  from bounded_goal_forward_value[OF default_world_near_goal v nf] have vf: "- 400 \<le> vf" .
  have fw: "(1, 0) \<in> set mdp_actions" by (simp add: mdp_actions_def)
  have "\<exists>b\<in>set mdp_actions.
          \<exists>u. next_state_value ?P V (5, 5, 0) b = Inr u \<and> - 10000000 < u"
  proof (intro bexI[of _ "(1, 0)"] exI[of _ vf] conjI)
    show "next_state_value ?P V (5, 5, 0) (1, 0) = Inr vf" by (rule nf)
    show "- 10000000 < vf" using vf by linarith
    show "(1, 0) \<in> set mdp_actions" by (rule fw)
  qed
  with two obtain a where a: "lookup_action table (5, 5, 0) = Inr (Some a)" by blast
  with one obtain va where am: "a \<in> set mdp_actions"
    and va: "next_state_value ?P V (5, 5, 0) a = Inr va"
    and mx: "\<forall>b\<in>set mdp_actions.
               \<exists>u. next_state_value ?P V (5, 5, 0) b = Inr u \<and> u \<le> va" by blast
  from mx fw nf have "vf \<le> va" by fastforce
  with vf have lo: "- 400 \<le> va" by linarith
  have pl: "plan_lookup ?P (5, 5, 0) = Inr (Some a)" by (simp add: plan_lookup_def t a)
  from v pl am va lo show ?thesis by blast
qed

text \<open>
  C8 as stated fails for a goal far outside the map. In the default world (200 by 200
  cells, resolution 0.05, inflation ratio 2, no obstacles) with the goal \<open>(3000000000, 8)\<close>
  the distance penalty of every state is below \<open>-10000000\<close>, every free state keeps the
  value \<open>-10000000\<close>, and at state \<open>(5, 5, 1)\<close> the expected next-state value of FORWARD is
  \<open>-10000000\<close>: no action is recorded, the table holds \<^verbatim>\<open>None\<close>.
\<close>

theorem policy_extraction_records_no_action:
  "err_bind
     (value_iteration
        \<lparr>world_width = 200, world_height = 200, resolution = 1 / 20, com = False,
         aug_map = inflate 200 200 10 (replicate 200 (replicate 200 0)),
         goal = (3000000000, 8)\<rparr>)
     (\<lambda>values. next_state_value
        \<lparr>world_width = 200, world_height = 200, resolution = 1 / 20, com = False,
         aug_map = inflate 200 200 10 (replicate 200 (replicate 200 0)),
         goal = (3000000000, 8)\<rparr> values (5, 5, 1) (1, 0)) = Inr (- 10000000)
   \<and> plan_lookup
       \<lparr>world_width = 200, world_height = 200, resolution = 1 / 20, com = False,
        aug_map = inflate 200 200 10 (replicate 200 (replicate 200 0)),
        goal = (3000000000, 8)\<rparr> (5, 5, 1) = Inr None"
proof -
  let ?P = "\<lparr>world_width = 200, world_height = 200, resolution = 1 / 20, com = False,
        aug_map = inflate 200 200 10 (replicate 200 (replicate 200 0)),
        goal = (3000000000, 8)\<rparr>"
  have s: "(5, 5, 1) \<in> set (mdp_states ?P)" unfolding default_world_states by simp
  from far_goal_plan_lookup[OF default_world_good default_world_far_goal s default_world_open]
  show ?thesis by blast
qed

text \<open>
  C9 (as amended). Provided the distance of every state to the goal, divided by
  \<^verbatim>\<open>distance_penalty_normalization\<close>, is at most 20, the table returned by \<^verbatim>\<open>generate_plan\<close>
  contains for every state \<open>(x, y, \<theta>)\<close> with \<open>0 \<le> x \<le> int(world_width * resolution)\<close>,
  \<open>0 \<le> y \<le> int(world_height * resolution)\<close> and \<open>\<theta> \<in> {0, 1, 2, 3}\<close> the key \<open>"x,y,\<theta>"\<close>, mapped
  to one of the three actions \<open>(1, 0)\<close>, \<open>(0, 1)\<close>, \<open>(0, -1)\<close> and never to \<^verbatim>\<open>None\<close>.
\<close>

theorem policy_table_total_for_bounded_goal:
  assumes "generate_plan self = Inr action_table"
    and "\<forall>s\<in>set (mdp_states self).
             d_from_goal self (of_int (fst s)) (of_int (fst (snd s)))
               / distance_penalty_normalization self \<le> 20"
    and "0 \<le> x" and "x \<le> py_int (of_nat (world_width self) * resolution self)"
    and "0 \<le> y" and "y \<le> py_int (of_nat (world_height self) * resolution self)"
    and "theta \<in> {0, 1, 2, 3}"
  shows "\<exists>a\<in>set mdp_actions. lookup_action action_table (x, y, theta) = Inr (Some a)"
proof -
  have s: "(x, y, theta) \<in> set (mdp_states self)"
    unfolding mdp_states_iff using assms(3-7) by auto
  from generate_plan_lookup[OF assms(1) s] obtain V vf vl vr where
    V: "value_iteration self = Inr V"
    and nf: "next_state_value self V (x, y, theta) (1, 0) = Inr vf"
    and lk: "lookup_action action_table (x, y, theta) =
                Inr (if max (max (- 10000000) vf) vl < vr then Some (0, - 1)
                     else if max (- 10000000) vf < vl then Some (0, 1)
                     else if - 10000000 < vf then Some (1, 0)
                     else None)" by blast
  have "- 400 \<le> vf"
    by (rule next_state_value_ge[OF value_iteration_bounded[OF assms(2) V] _ nf])
      (simp add: crash_penalty_def)
  then have vf: "- 10000000 < vf" by linarith
  have mem: "(1, 0) \<in> set mdp_actions" "(0, 1) \<in> set mdp_actions"
    "(0, - 1) \<in> set mdp_actions" by (simp_all add: mdp_actions_def)
  consider (r) "max (max (- 10000000) vf) vl < vr"
    | (l) "\<not> max (max (- 10000000) vf) vl < vr" "max (- 10000000) vf < vl"
    | (f) "\<not> max (max (- 10000000) vf) vl < vr" "\<not> max (- 10000000) vf < vl"
    by blast
  then show ?thesis
  proof cases
    case r
    have "lookup_action action_table (x, y, theta) = Inr (Some (0, - 1))"
      by (simp only: lk r if_True)
    with mem(3) show ?thesis by blast
  next
    case l
    have "lookup_action action_table (x, y, theta) = Inr (Some (0, 1))"
      by (simp only: lk l if_True if_False)
    with mem(2) show ?thesis by blast
  next
    case f
    have "lookup_action action_table (x, y, theta) = Inr (Some (1, 0))"
      by (simp only: lk f vf if_True if_False)
    with mem(1) show ?thesis by blast
  qed
qed

theorem policy_table_total_for_bounded_goal_witness:
  "\<exists>a\<in>set mdp_actions.
     plan_lookup
       \<lparr>world_width = 200, world_height = 200, resolution = 1 / 20, com = False,
        aug_map = inflate 200 200 10 (replicate 200 (replicate 200 0)), goal = (1, 8)\<rparr>
       (5, 5, 0) = Inr (Some a)"
proof -
  let ?P = "\<lparr>world_width = 200, world_height = 200, resolution = 1 / 20, com = False,
        aug_map = inflate 200 200 10 (replicate 200 (replicate 200 0)), goal = (1, 8)\<rparr>"
  from generate_plan_total[OF default_world_good] obtain table where
    t: "generate_plan ?P = Inr table" by blast
  have "\<exists>a\<in>set mdp_actions. lookup_action table (5, 5, 0) = Inr (Some a)"
    by (rule policy_table_total_for_bounded_goal[OF t default_world_near_goal])
      (simp_all add: py_int_def)
  then show ?thesis by (simp add: plan_lookup_def t)
qed

text \<open>
  C9 as stated fails for a goal far outside the map: in the default world with the goal
  \<open>(3000000000, 8)\<close> the key \<open>"5,5,0"\<close> is mapped to \<^verbatim>\<open>None\<close>.
\<close>

theorem policy_table_holds_no_action:
  "plan_lookup
     \<lparr>world_width = 200, world_height = 200, resolution = 1 / 20, com = False,
      aug_map = inflate 200 200 10 (replicate 200 (replicate 200 0)),
      goal = (3000000000, 8)\<rparr> (5, 5, 0) = Inr None"
proof -
  let ?P = "\<lparr>world_width = 200, world_height = 200, resolution = 1 / 20, com = False,
        aug_map = inflate 200 200 10 (replicate 200 (replicate 200 0)),
        goal = (3000000000, 8)\<rparr>"
  have s: "(5, 5, 0) \<in> set (mdp_states ?P)" unfolding default_world_states by simp
  from far_goal_plan_lookup[OF default_world_good default_world_far_goal s default_world_open]
  show ?thesis by blast
qed

end
